theory Spec2Isabelle
  imports Complex_Main "HOL-Library.Sublist"
begin

section \<open>JavaScript values\<close>

text \<open>
  The service is JavaScript. Numbers are modelled by \<open>jsnum\<close>: the not-a-number value,
  the two infinities and the finite numbers, the latter as the reals their decimal
  notation denotes. The rounding of doubles and the sign of zero are not represented: a
  literal such as \<open>0.9\<close> is the real 0.9, and sums and quotients are exact. The sign of a
  difference of two numbers, which is all the sort comparators use, is the same in double
  arithmetic.
\<close>

datatype jsnum = NaN | NInf | Fin real | PInf

text \<open>The relational operators \<open><\<close>, \<open>>\<close>, \<open><=\<close>, \<open>>=\<close>: false as soon as one side is NaN.\<close>

fun js_lt :: "jsnum \<Rightarrow> jsnum \<Rightarrow> bool" where
  "js_lt NaN b = False"
| "js_lt a NaN = False"
| "js_lt NInf NInf = False"
| "js_lt NInf b = True"
| "js_lt (Fin x) NInf = False"
| "js_lt (Fin x) (Fin y) = (x < y)"
| "js_lt (Fin x) PInf = True"
| "js_lt PInf b = False"

fun js_le :: "jsnum \<Rightarrow> jsnum \<Rightarrow> bool" where
  "js_le NaN b = False"
| "js_le a NaN = False"
| "js_le NInf b = True"
| "js_le (Fin x) NInf = False"
| "js_le (Fin x) (Fin y) = (x \<le> y)"
| "js_le (Fin x) PInf = True"
| "js_le PInf PInf = True"
| "js_le PInf b = False"

definition js_gt :: "jsnum \<Rightarrow> jsnum \<Rightarrow> bool" where
  "js_gt a b = js_lt b a"

definition js_ge :: "jsnum \<Rightarrow> jsnum \<Rightarrow> bool" where
  "js_ge a b = js_le b a"

text \<open>Arithmetic: \<open>+\<close>, unary and binary \<open>-\<close>, \<open>/\<close>.\<close>

fun js_add :: "jsnum \<Rightarrow> jsnum \<Rightarrow> jsnum" where
  "js_add NaN b = NaN"
| "js_add a NaN = NaN"
| "js_add (Fin x) (Fin y) = Fin (x + y)"
| "js_add (Fin x) b = b"
| "js_add a (Fin y) = a"
| "js_add PInf PInf = PInf"
| "js_add NInf NInf = NInf"
| "js_add PInf NInf = NaN"
| "js_add NInf PInf = NaN"

fun js_neg :: "jsnum \<Rightarrow> jsnum" where
  "js_neg NaN = NaN"
| "js_neg NInf = PInf"
| "js_neg (Fin x) = Fin (- x)"
| "js_neg PInf = NInf"

definition js_sub :: "jsnum \<Rightarrow> jsnum \<Rightarrow> jsnum" where
  "js_sub a b = js_add a (js_neg b)"

fun js_div :: "jsnum \<Rightarrow> jsnum \<Rightarrow> jsnum" where
  "js_div NaN b = NaN"
| "js_div a NaN = NaN"
| "js_div (Fin x) (Fin y) =
     (if y = 0 then (if x = 0 then NaN else if 0 < x then PInf else NInf) else Fin (x / y))"
| "js_div (Fin x) b = Fin 0"
| "js_div PInf (Fin y) = (if y < 0 then NInf else PInf)"
| "js_div NInf (Fin y) = (if y < 0 then PInf else NInf)"
| "js_div a b = NaN"

text \<open>
  Values: \<open>undefined\<close>, \<open>null\<close>, booleans, strings, numbers and plain objects. An object
  is the list of its own properties in insertion order.
\<close>

datatype jsval =
    Undefined
  | Null
  | Bool bool
  | Str string
  | Num jsnum
  | Obj "(string \<times> jsval) list"

type_synonym jsobj = "(string \<times> jsval) list"

text \<open>\<open>o.k\<close> on an object: the value of the property, \<open>undefined\<close> when there is none.\<close>

definition get :: "jsobj \<Rightarrow> string \<Rightarrow> jsval" where
  "get ob k = (case map_of ob k of None \<Rightarrow> Undefined | Some v \<Rightarrow> v)"

text \<open>
  \<open>v?.k\<close>: \<open>undefined\<close> when \<open>v\<close> is \<open>undefined\<close> or \<open>null\<close>, the property otherwise.
  The property names read this way (\<open>keyvalues\<close>, \<open>type\<close>, \<open>modelType\<close>, \<open>accuracy\<close>,
  \<open>version\<close>) are not properties of the primitive wrappers, so a primitive yields
  \<open>undefined\<close>.
\<close>

fun opt_get :: "jsval \<Rightarrow> string \<Rightarrow> jsval" where
  "opt_get (Obj ob) k = get ob k"
| "opt_get v k = Undefined"

fun truthy :: "jsval \<Rightarrow> bool" where
  "truthy Undefined = False"
| "truthy Null = False"
| "truthy (Bool b) = b"
| "truthy (Str s) = (s \<noteq> [])"
| "truthy (Num NaN) = False"
| "truthy (Num (Fin x)) = (x \<noteq> 0)"
| "truthy (Num n) = True"
| "truthy (Obj ob) = True"

text \<open>\<open>a || b\<close>.\<close>

definition js_or :: "jsval \<Rightarrow> jsval \<Rightarrow> jsval" where
  "js_or a b = (if truthy a then a else b)"

text \<open>Errors thrown by the code, by the HTTP client or by a built-in, with their message.\<close>

datatype jserr = Error string

fun message :: "jserr \<Rightarrow> string" where
  "message (Error m) = m"

text \<open>
  \<open>s.includes(t)\<close> on strings, and \<open>v?.includes(t)\<close> on a value: \<open>undefined\<close> (falsy) for
  \<open>undefined\<close> and \<open>null\<close>, the search for a string, and a TypeError for the other values,
  which have no method \<open>includes\<close>.
\<close>

definition js_includes :: "string \<Rightarrow> string \<Rightarrow> bool" where
  "js_includes s t = list_ex (\<lambda>u. prefix t u) (suffixes s)"

fun opt_includes :: "jsval \<Rightarrow> string \<Rightarrow> jserr + bool" where
  "opt_includes Undefined t = Inr False"
| "opt_includes Null t = Inr False"
| "opt_includes (Str s) t = Inr (js_includes s t)"
| "opt_includes v t = Inl (Error ''file.name?.includes is not a function'')"

section \<open>Identifier validation\<close>







section \<open>Built-ins and the network\<close>

text \<open>
  The built-in functions the code calls are parameters of the model: \<^verbatim>\<open>parseFloat\<close> and
  \<^verbatim>\<open>Date.parse\<close> on strings, \<^verbatim>\<open>toFixed(4)\<close>, \<^verbatim>\<open>localeCompare\<close>,
  \<^verbatim>\<open>JSON.stringify\<close> and \<^verbatim>\<open>JSON.parse\<close>. Every theorem holds for all of them.
\<close>

record builtins =
  parseFloat :: "string \<Rightarrow> jsnum"
  dateParse :: "string \<Rightarrow> jsnum"
  toFixed4 :: "jsnum \<Rightarrow> string"
  localeCompare :: "string \<Rightarrow> string \<Rightarrow> jsnum"
  stringify :: "jsval \<Rightarrow> string"
  jsonParse :: "string \<Rightarrow> jserr + jsval"

text \<open>\<^verbatim>\<open>parseFloat(v)\<close> converts its argument to a string first.\<close>

fun parseFloat_val :: "builtins \<Rightarrow> jsval \<Rightarrow> jsnum" where
  "parseFloat_val env (Str s) = parseFloat env s"
| "parseFloat_val env (Num n) = n"
| "parseFloat_val env v = NaN"

text \<open>
  The time value of \<^verbatim>\<open>new Date(v)\<close>, in milliseconds; NaN is the invalid date.
\<close>

fun timeClip :: "jsnum \<Rightarrow> jsnum" where
  "timeClip (Fin r) =
     (if 8640000000000000 < \<bar>r\<bar> then NaN
      else Fin (if 0 \<le> r then of_int \<lfloor>r\<rfloor> else of_int \<lceil>r\<rceil>))"
| "timeClip n = NaN"

fun newDate :: "builtins \<Rightarrow> jsval \<Rightarrow> jsnum" where
  "newDate env Undefined = NaN"
| "newDate env Null = Fin 0"
| "newDate env (Bool b) = Fin (if b then 1 else 0)"
| "newDate env (Str s) = dateParse env s"
| "newDate env (Num n) = timeClip n"
| "newDate env (Obj ob) = NaN"

text \<open>
  A row of the provider's pin list, with the fields the service reads. \<open>ipfs_pin_hash\<close>
  is a string; \<open>size\<close> (here \<open>size_bytes\<close>), \<open>date_pinned\<close> and \<open>metadata\<close> are copied
  through as they come.
\<close>

record pin_row =
  ipfs_pin_hash :: string
  size_bytes :: jsval
  date_pinned :: jsval
  metadata :: jsval

text \<open>
  The HTTP requests the service sends: a page of the pin list (page limit, page offset and
  the optional status filter), the pin list filtered by hash, and a gateway URL. The
  network answers each with an error or the response data; \<open>rows\<close> of a pin list
  response may be missing.
\<close>

datatype request =
    PinList nat nat "string option"
  | PinByHash string
  | GatewayGet string

record network =
  pinList :: "nat \<Rightarrow> nat \<Rightarrow> string option \<Rightarrow> jserr + pin_row list option"
  pinByHash :: "string \<Rightarrow> jserr + pin_row list option"
  gateway :: "string \<Rightarrow> jserr + jsval"

text \<open>
  The response a route sends: \<^verbatim>\<open>res.json({success: true, data})\<close>, or
  \<^verbatim>\<open>res.status(code).json({success: false, error})\<close>. Time stamps of the response
  are left out.
\<close>

datatype 'a http = Success 'a | Failure nat string

section \<open>Fetching with gateway fallback\<close>

text \<open>
  \<^verbatim>\<open>getFromIPFS\<close>: three nested try blocks. The result carries the requests sent, in
  order.
\<close>

definition getFromIPFS :: "builtins \<Rightarrow> network \<Rightarrow> string \<Rightarrow> request list \<times> (jserr + string)" where
  "getFromIPFS env net ipfsHash =
     (case gateway net (''https://gateway.pinata.cloud/ipfs/'' @ ipfsHash) of
        Inr d \<Rightarrow>
          ([GatewayGet (''https://gateway.pinata.cloud/ipfs/'' @ ipfsHash)], Inr (stringify env d))
      | Inl error \<Rightarrow>
          (case gateway net (''https://ipfs.io/ipfs/'' @ ipfsHash) of
             Inr d \<Rightarrow>
               ([GatewayGet (''https://gateway.pinata.cloud/ipfs/'' @ ipfsHash),
                 GatewayGet (''https://ipfs.io/ipfs/'' @ ipfsHash)], Inr (stringify env d))
           | Inl fallbackError \<Rightarrow>
               (case gateway net (''https://cloudflare-ipfs.com/ipfs/'' @ ipfsHash) of
                  Inr d \<Rightarrow>
                    ([GatewayGet (''https://gateway.pinata.cloud/ipfs/'' @ ipfsHash),
                      GatewayGet (''https://ipfs.io/ipfs/'' @ ipfsHash),
                      GatewayGet (''https://cloudflare-ipfs.com/ipfs/'' @ ipfsHash)],
                     Inr (stringify env d))
                | Inl finalError \<Rightarrow>
                    ([GatewayGet (''https://gateway.pinata.cloud/ipfs/'' @ ipfsHash),
                      GatewayGet (''https://ipfs.io/ipfs/'' @ ipfsHash),
                      GatewayGet (''https://cloudflare-ipfs.com/ipfs/'' @ ipfsHash)],
                     Inl (Error (''Failed to fetch from IPFS: '' @ message finalError))))))"




section \<open>Paginated listing\<close>

text \<open>
  \<^verbatim>\<open>listPinnedFiles(limit, status)\<close>: the \<^verbatim>\<open>while (true)\<close> loop with its three
  \<^verbatim>\<open>break\<close>s. \<open>limit\<close> is a number, NaN included (the routes pass
  \<^verbatim>\<open>parseInt\<close> of a query string). The loop need not end, so it is a partial function:
  \<open>None\<close> is the run that never returns. A failed request leaves the loop through the
  \<^verbatim>\<open>catch\<close>.
\<close>

definition pageLimit :: nat where
  "pageLimit = 100"

text \<open>The status filter is added to the URL unless it is \<open>all\<close>.\<close>

definition statusParam :: "string \<Rightarrow> string option" where
  "statusParam status = (if status \<noteq> ''all'' then Some status else None)"

partial_function (option) pinList_loop ::
  "network \<Rightarrow> jsnum \<Rightarrow> string \<Rightarrow> pin_row list \<Rightarrow> nat \<Rightarrow> request list
     \<Rightarrow> (request list \<times> (jserr + pin_row list)) option"
where
  "pinList_loop net limit status allFiles pageOffset trace =
     (case pinList net pageLimit pageOffset (statusParam status) of
        Inl error \<Rightarrow>
          Some (trace @ [PinList pageLimit pageOffset (statusParam status)], Inl error)
      | Inr None \<Rightarrow>
          Some (trace @ [PinList pageLimit pageOffset (statusParam status)], Inr allFiles)
      | Inr (Some rows) \<Rightarrow>
          (if length rows = 0 then
             Some (trace @ [PinList pageLimit pageOffset (statusParam status)], Inr allFiles)
           else if js_ge (Fin (real (length (allFiles @ rows)))) limit \<or> length rows < pageLimit then
             Some (trace @ [PinList pageLimit pageOffset (statusParam status)],
                   Inr (allFiles @ rows))
           else
             pinList_loop net limit status (allFiles @ rows) (pageOffset + pageLimit)
               (trace @ [PinList pageLimit pageOffset (statusParam status)])))"

text \<open>
  The object built for each accumulated row. Where \<open>metadata\<close> is truthy its \<open>name\<close> is
  read, which is \<open>undefined\<close> when there is none.
\<close>

definition pinned_file :: "pin_row \<Rightarrow> jsobj" where
  "pinned_file file =
     [(''ipfs_pin_hash'', Str (ipfs_pin_hash file)),
      (''name'', if truthy (metadata file) then opt_get (metadata file) ''name''
                 else Str (''file-'' @ take 8 (ipfs_pin_hash file))),
      (''size'', size_bytes file),
      (''date_pinned'', date_pinned file),
      (''metadata'', js_or (metadata file) (Obj [])),
      (''status'', Str ''pinned'')]"

text \<open>
  The result object: \<^verbatim>\<open>{success: true, count, rows}\<close> or
  \<^verbatim>\<open>{success: false, error}\<close>.
\<close>

datatype list_result = Listed nat "jsobj list" | ListFailed string

definition listPinnedFiles ::
  "network \<Rightarrow> jsnum \<Rightarrow> string \<Rightarrow> (request list \<times> list_result) option" where
  "listPinnedFiles net limit status =
     (case pinList_loop net limit status [] 0 [] of
        None \<Rightarrow> None
      | Some (trace, Inl error) \<Rightarrow> Some (trace, ListFailed (message error))
      | Some (trace, Inr allFiles) \<Rightarrow>
          Some (trace, Listed (length allFiles) (map pinned_file allFiles)))"

section \<open>Classifying rows as models\<close>

text \<open>
  The filter callbacks of the three routes. \<^verbatim>\<open>||\<close> evaluates from the left and stops at
  the first truthy operand, so \<^verbatim>\<open>file.name?.includes\<close> is reached only when the two
  key-value tests are false.
\<close>

definition keyvalue :: "jsobj \<Rightarrow> string \<Rightarrow> jsval" where
  "keyvalue file k = opt_get (opt_get (get file ''metadata'') ''keyvalues'') k"

definition isModel_list :: "jsobj \<Rightarrow> jserr + bool" where
  "isModel_list file =
     (if keyvalue file ''type'' = Str ''ml-model'' then Inr True
      else if keyvalue file ''modelType'' = Str ''temporal_fusion_transformer'' then Inr True
      else (case opt_includes (get file ''name'') ''model'' of
              Inl e \<Rightarrow> Inl e
            | Inr True \<Rightarrow> Inr True
            | Inr False \<Rightarrow> opt_includes (get file ''name'') ''tft''))"

definition isModel_search :: "jsobj \<Rightarrow> jserr + bool" where
  "isModel_search file =
     (if keyvalue file ''type'' = Str ''ml-model'' then Inr True
      else if keyvalue file ''modelType'' = Str ''temporal_fusion_transformer'' then Inr True
      else opt_includes (get file ''name'') ''model'')"

definition isModel_statistics :: "jsobj \<Rightarrow> jserr + bool" where
  "isModel_statistics file =
     (if keyvalue file ''type'' = Str ''ml-model'' then Inr True
      else if keyvalue file ''modelType'' = Str ''temporal_fusion_transformer'' then Inr True
      else opt_includes (get file ''name'') ''model'')"

text \<open>\<^verbatim>\<open>rows.filter(callback)\<close>, where the callback may throw.\<close>

fun filter_js :: "('a \<Rightarrow> jserr + bool) \<Rightarrow> 'a list \<Rightarrow> jserr + 'a list" where
  "filter_js p [] = Inr []"
| "filter_js p (x # xs) =
     (case p x of
        Inl e \<Rightarrow> Inl e
      | Inr b \<Rightarrow> (case filter_js p xs of
                    Inl e \<Rightarrow> Inl e
                  | Inr ys \<Rightarrow> Inr (if b then x # ys else ys)))"

section \<open>Sorting\<close>

text \<open>
  \<^verbatim>\<open>Array.prototype.sort(comparefn)\<close>: a NaN returned by the comparator counts as zero,
  a negative value puts the first argument first, and the sort is stable. For a comparator
  that is a consistent ordering of the elements the language fixes the result, and every
  stable algorithm computes it; insertion from the right is the one written here. For a
  comparator that is not consistent (one NaN key among numbers, say) the language leaves
  the order to the engine, and the order computed here need not be the engine's. The
  properties below use \<open>js_sort\<close> only where the comparator is consistent on the list:
  a strict total order, or NaN on every pair.
\<close>

fun js_insert :: "('a \<Rightarrow> 'a \<Rightarrow> jsnum) \<Rightarrow> 'a \<Rightarrow> 'a list \<Rightarrow> 'a list" where
  "js_insert cmp x [] = [x]"
| "js_insert cmp x (y # ys) =
     (if js_gt (cmp x y) (Fin 0) then y # js_insert cmp x ys else x # y # ys)"

definition js_sort :: "('a \<Rightarrow> 'a \<Rightarrow> jsnum) \<Rightarrow> 'a list \<Rightarrow> 'a list" where
  "js_sort cmp xs = foldr (js_insert cmp) xs []"

text \<open>
  The records \<^verbatim>\<open>sortModels\<close> receives from the list-models route, with the fields it
  reads: \<open>accuracy\<close> is the result of \<^verbatim>\<open>parseFloat\<close>, a number; \<open>name\<close> is a string
  and \<open>size\<close> a number.
\<close>

record model =
  name :: string
  accuracy :: jsnum
  size_of :: jsnum
  uploadedAt :: jsval

definition comparison :: "builtins \<Rightarrow> string \<Rightarrow> model \<Rightarrow> model \<Rightarrow> jsnum" where
  "comparison env sortBy a b =
     (if sortBy = ''date'' then js_sub (newDate env (uploadedAt b)) (newDate env (uploadedAt a))
      else if sortBy = ''name'' then localeCompare env (name a) (name b)
      else if sortBy = ''accuracy'' then js_sub (accuracy b) (accuracy a)
      else if sortBy = ''size'' then js_sub (size_of b) (size_of a)
      else js_sub (newDate env (uploadedAt b)) (newDate env (uploadedAt a)))"

definition sortModels :: "builtins \<Rightarrow> model list \<Rightarrow> string \<Rightarrow> string \<Rightarrow> model list" where
  "sortModels env models sortBy order =
     js_sort (\<lambda>a b. if order = ''asc'' then js_neg (comparison env sortBy a b)
                     else comparison env sortBy a b) models"

section \<open>Statistics\<close>

text \<open>
  The route \<^verbatim>\<open>GET /api/ml/statistics\<close>. The \<^verbatim>\<open>forEach\<close> over the models updates
  the counters and the local variables; \<open>stat_state\<close> holds them, \<open>stat_step\<close> is the
  callback. The storage total and the per-type counts are computed by the route
  independently of everything below and are left out.
\<close>

record stat_state =
  high :: nat
  medium :: nat
  low :: nat
  last24h :: nat
  last7d :: nat
  last30d :: nat
  totalAccuracy :: jsnum
  validAccuracyCount :: nat
  bestAccuracy :: jsnum
  bestModel :: jsval

definition stat_init :: stat_state where
  "stat_init =
     \<lparr>high = 0, medium = 0, low = 0, last24h = 0, last7d = 0, last30d = 0,
      totalAccuracy = Fin 0, validAccuracyCount = 0, bestAccuracy = Fin 0, bestModel = Null\<rparr>"

definition modelType_of :: "jsobj \<Rightarrow> jsval" where
  "modelType_of file = js_or (keyvalue file ''modelType'') (Str ''unknown'')"

definition accuracy_of :: "builtins \<Rightarrow> jsobj \<Rightarrow> jsnum" where
  "accuracy_of env file = parseFloat_val env (js_or (keyvalue file ''accuracy'') (Num (Fin 0)))"

definition hoursDiff :: "builtins \<Rightarrow> real \<Rightarrow> jsobj \<Rightarrow> jsnum" where
  "hoursDiff env now file =
     js_div (js_sub (Fin now) (newDate env (get file ''timestamp''))) (Fin (1000 * 60 * 60))"

definition count_accuracy :: "builtins \<Rightarrow> jsobj \<Rightarrow> stat_state \<Rightarrow> stat_state" where
  "count_accuracy env file st =
     (if js_gt (accuracy_of env file) (Fin 0) then
        st\<lparr>totalAccuracy := js_add (totalAccuracy st) (accuracy_of env file),
           validAccuracyCount := validAccuracyCount st + 1,
           high := (if js_gt (accuracy_of env file) (Fin 0.9) then high st + 1 else high st),
           medium := (if js_gt (accuracy_of env file) (Fin 0.9) then medium st
                      else if js_ge (accuracy_of env file) (Fin 0.7) then medium st + 1
                      else medium st),
           low := (if js_gt (accuracy_of env file) (Fin 0.9) then low st
                   else if js_ge (accuracy_of env file) (Fin 0.7) then low st
                   else low st + 1),
           bestAccuracy := (if js_gt (accuracy_of env file) (bestAccuracy st)
                            then accuracy_of env file else bestAccuracy st),
           bestModel := (if js_gt (accuracy_of env file) (bestAccuracy st)
                         then Obj [(''name'', get file ''name''),
                                   (''ipfsHash'', get file ''ipfsHash''),
                                   (''accuracy'', Num (accuracy_of env file)),
                                   (''modelType'', modelType_of file)]
                         else bestModel st)\<rparr>
      else st)"

definition count_recent :: "builtins \<Rightarrow> real \<Rightarrow> jsobj \<Rightarrow> stat_state \<Rightarrow> stat_state" where
  "count_recent env now file st =
     st\<lparr>last24h := (if js_le (hoursDiff env now file) (Fin 24) then last24h st + 1 else last24h st),
        last7d := (if js_le (hoursDiff env now file) (Fin 168) then last7d st + 1 else last7d st),
        last30d := (if js_le (hoursDiff env now file) (Fin 720) then last30d st + 1 else last30d st)\<rparr>"

definition stat_step :: "builtins \<Rightarrow> real \<Rightarrow> stat_state \<Rightarrow> jsobj \<Rightarrow> stat_state" where
  "stat_step env now st file = count_recent env now file (count_accuracy env file st)"

text \<open>The \<open>stats\<close> object sent back.\<close>

record stats =
  totalModels :: nat
  accuracyDistribution_high :: nat
  accuracyDistribution_medium :: nat
  accuracyDistribution_low :: nat
  recentUploads_last24h :: nat
  recentUploads_last7d :: nat
  recentUploads_last30d :: nat
  averageAccuracy :: jsval
  stats_bestModel :: jsval
  latestModel :: jsval

definition latest_of :: "builtins \<Rightarrow> jsobj list \<Rightarrow> jsval" where
  "latest_of env models =
     (case js_sort (\<lambda>a b. js_sub (newDate env (get b ''timestamp''))
                                  (newDate env (get a ''timestamp''))) models of
        [] \<Rightarrow> Null
      | latestFile # rest \<Rightarrow>
          Obj [(''name'', get latestFile ''name''),
               (''ipfsHash'', get latestFile ''ipfsHash''),
               (''uploadedAt'', get latestFile ''timestamp''),
               (''modelType'', modelType_of latestFile)])"

definition computeStats :: "builtins \<Rightarrow> real \<Rightarrow> jsobj list \<Rightarrow> stats" where
  "computeStats env now models =
     (let st = foldl (stat_step env now) stat_init models in
      \<lparr>totalModels = length models,
       accuracyDistribution_high = high st,
       accuracyDistribution_medium = medium st,
       accuracyDistribution_low = low st,
       recentUploads_last24h = last24h st,
       recentUploads_last7d = last7d st,
       recentUploads_last30d = last30d st,
       averageAccuracy =
         (if validAccuracyCount st > 0
          then Str (toFixed4 env (js_div (totalAccuracy st) (Fin (real (validAccuracyCount st)))))
          else Num (Fin 0)),
       stats_bestModel = bestModel st,
       latestModel = (if length models > 0 then latest_of env models else Null)\<rparr>)"

definition statistics ::
  "builtins \<Rightarrow> network \<Rightarrow> real \<Rightarrow> (request list \<times> stats http) option" where
  "statistics env net now =
     (case listPinnedFiles net (Fin 1000) ''all'' of
        None \<Rightarrow> None
      | Some (trace, ListFailed e) \<Rightarrow> Some (trace, Failure 500 ''Failed to retrieve statistics'')
      | Some (trace, Listed n rows) \<Rightarrow>
          (case filter_js isModel_statistics rows of
             Inl e \<Rightarrow> Some (trace, Failure 500 (message e))
           | Inr models \<Rightarrow> Some (trace, Success (computeStats env now models))))"

section \<open>Example data\<close>

text \<open>
  Concrete values for the examples below: built-ins given on the strings the examples
  use, a network on which every request fails, networks that differ from it in their
  pin list pages, two provider rows, and lists of model records.
\<close>

definition sample_builtins :: builtins where
  "sample_builtins =
     \<lparr>parseFloat = (\<lambda>s. if s = ''0.95'' then Fin 0.95 else if s = ''0.8'' then Fin 0.8
                         else if s = ''0.5'' then Fin 0.5 else if s = ''0'' then Fin 0 else NaN),
      dateParse = (\<lambda>s. if s = ''2024-01-01T00:00:00.000Z'' then Fin 1704067200000
                        else if s = ''2024-06-01T00:00:00.000Z'' then Fin 1717200000000 else NaN),
      toFixed4 = (\<lambda>n. if n = Fin 0.875 then ''0.8750'' else if n = Fin 0.95 then ''0.9500''
                       else ''NaN''),
      localeCompare = (\<lambda>a b. if a = b then Fin 0 else Fin 1),
      stringify = (\<lambda>v. case v of Str s \<Rightarrow> [CHR 0x22] @ s @ [CHR 0x22] | _ \<Rightarrow> ''null''),
      jsonParse = (\<lambda>s. Inl (Error ''Unexpected token''))\<rparr>"

definition offline :: network where
  "offline =
     \<lparr>pinList = (\<lambda>lim off st. Inl (Error ''getaddrinfo ENOTFOUND'')),
      pinByHash = (\<lambda>h. Inl (Error ''getaddrinfo ENOTFOUND'')),
      gateway = (\<lambda>u. Inl (Error ''getaddrinfo ENOTFOUND''))\<rparr>"

definition older_row :: pin_row where
  "older_row =
     \<lparr>ipfs_pin_hash = ''QmOlder'', size_bytes = Num (Fin 100),
      date_pinned = Str ''2024-01-01T00:00:00.000Z'',
      metadata = Obj [(''name'', Str ''model-older''),
                      (''keyvalues'', Obj [(''type'', Str ''ml-model''), (''accuracy'', Str ''0.8'')])]\<rparr>"

definition newer_row :: pin_row where
  "newer_row =
     \<lparr>ipfs_pin_hash = ''QmNewer'', size_bytes = Num (Fin 200),
      date_pinned = Str ''2024-06-01T00:00:00.000Z'',
      metadata = Obj [(''name'', Str ''model-newer''),
                      (''keyvalues'', Obj [(''type'', Str ''ml-model''), (''accuracy'', Str ''0.95'')])]\<rparr>"

definition one_row :: network where
  "one_row =
     offline\<lparr>pinList := (\<lambda>lim off st. Inr (Some (if off = 0 then [newer_row] else [])))\<rparr>"

definition two_rows :: network where
  "two_rows =
     offline\<lparr>pinList := (\<lambda>lim off st. Inr (Some (if off = 0 then [older_row, newer_row] else [])))\<rparr>"

definition three_pages_rows :: "nat \<Rightarrow> pin_row list" where
  "three_pages_rows k =
     (if k < 2 then replicate 100 older_row else if k = 2 then replicate 37 newer_row else [])"

definition three_pages :: network where
  "three_pages = offline\<lparr>pinList := (\<lambda>lim off st. Inr (Some (three_pages_rows (off div 100))))\<rparr>"

definition seven_rows :: network where
  "seven_rows =
     offline\<lparr>pinList := (\<lambda>lim off st. Inr (Some (if off = 0 then replicate 7 older_row else [])))\<rparr>"

definition full_pages :: network where
  "full_pages = offline\<lparr>pinList := (\<lambda>lim off st. Inr (Some (replicate 100 older_row)))\<rparr>"

definition nan_models :: "model list" where
  "nan_models =
     [\<lparr>name = ''model-a'', accuracy = NaN, size_of = Fin 10, uploadedAt = Undefined\<rparr>,
      \<lparr>name = ''model-b'', accuracy = Fin 1, size_of = Fin 20, uploadedAt = Undefined\<rparr>]"

definition three_models :: "model list" where
  "three_models =
     [\<lparr>name = ''model-a'', accuracy = Fin 0.8, size_of = Fin 10, uploadedAt = Undefined\<rparr>,
      \<lparr>name = ''model-b'', accuracy = Fin 0.95, size_of = Fin 20, uploadedAt = Undefined\<rparr>,
      \<lparr>name = ''model-c'', accuracy = Fin 0.5, size_of = Fin 30, uploadedAt = Undefined\<rparr>]"

section \<open>Identifier validation: properties\<close>









section \<open>Gateway fallback: properties\<close>

text \<open>
  Claim C2. \<open>getFromIPFS\<close> requests the Pinata gateway, then ipfs.io, then Cloudflare,
  each at most once and in this order, stopping at the first that answers; the result is
  the stringified data of that gateway, and it is an error exactly when all three
  requests failed.
\<close>

theorem getFromIPFS_fallback_chain:
  "(let u1 = ''https://gateway.pinata.cloud/ipfs/'' @ h;
        u2 = ''https://ipfs.io/ipfs/'' @ h;
        u3 = ''https://cloudflare-ipfs.com/ipfs/'' @ h;
        trace = fst (getFromIPFS env net h);
        res = snd (getFromIPFS env net h)
    in (trace = [GatewayGet u1] \<or> trace = [GatewayGet u1, GatewayGet u2]
          \<or> trace = [GatewayGet u1, GatewayGet u2, GatewayGet u3])
       \<and> distinct trace
       \<and> (\<forall>d. gateway net u1 = Inr d \<longrightarrow>
              trace = [GatewayGet u1] \<and> res = Inr (stringify env d))
       \<and> (\<forall>d. isl (gateway net u1) \<and> gateway net u2 = Inr d \<longrightarrow>
              trace = [GatewayGet u1, GatewayGet u2] \<and> res = Inr (stringify env d))
       \<and> (\<forall>d. isl (gateway net u1) \<and> isl (gateway net u2) \<and> gateway net u3 = Inr d \<longrightarrow>
              trace = [GatewayGet u1, GatewayGet u2, GatewayGet u3] \<and> res = Inr (stringify env d))
       \<and> (\<forall>e. isl (gateway net u1) \<and> isl (gateway net u2) \<and> gateway net u3 = Inl e \<longrightarrow>
              trace = [GatewayGet u1, GatewayGet u2, GatewayGet u3]
              \<and> res = Inl (Error (''Failed to fetch from IPFS: '' @ message e)))
       \<and> (isl res \<longleftrightarrow> isl (gateway net u1) \<and> isl (gateway net u2) \<and> isl (gateway net u3)))"
  by (auto simp: getFromIPFS_def Let_def split: sum.splits)

theorem getFromIPFS_fallback_chain_witness:
  "getFromIPFS sample_builtins
     (offline\<lparr>gateway := (\<lambda>u. if u = ''https://cloudflare-ipfs.com/ipfs/QmOlder''
                               then Inr (Str ''weights'') else Inl (Error ''timeout''))\<rparr>)
     ''QmOlder''
   = ([GatewayGet ''https://gateway.pinata.cloud/ipfs/QmOlder'',
       GatewayGet ''https://ipfs.io/ipfs/QmOlder'',
       GatewayGet ''https://cloudflare-ipfs.com/ipfs/QmOlder''],
      Inr (stringify sample_builtins (Str ''weights'')))"
  using getFromIPFS_fallback_chain [of "''QmOlder''" sample_builtins
     "offline\<lparr>gateway := (\<lambda>u. if u = ''https://cloudflare-ipfs.com/ipfs/QmOlder''
                               then Inr (Str ''weights'') else Inl (Error ''timeout''))\<rparr>"]
  by (simp add: Let_def prod_eq_iff)

section \<open>Classification: properties\<close>

lemma js_includes_iff: "js_includes s t \<longleftrightarrow> (\<exists>u v. s = u @ t @ v)"
proof -
  have "js_includes s t \<longleftrightarrow> (\<exists>w\<in>set (suffixes s). prefix t w)"
    by (simp add: js_includes_def list_ex_iff)
  also have "\<dots> \<longleftrightarrow> (\<exists>w. suffix w s \<and> prefix t w)"
    by (auto simp: in_set_suffixes)
  also have "\<dots> \<longleftrightarrow> (\<exists>u v. s = u @ t @ v)"
    by (auto simp: suffix_def prefix_def)
  finally show ?thesis .
qed

lemma opt_includes_True:
  "opt_includes v t = Inr True \<longleftrightarrow> (\<exists>s. v = Str s \<and> js_includes s t)"
  by (cases v) auto

lemma keyvalue_Str:
  "keyvalue file k = Str x \<longleftrightarrow>
     (\<exists>md kv. map_of file ''metadata'' = Some (Obj md) \<and>
              map_of md ''keyvalues'' = Some (Obj kv) \<and> map_of kv k = Some (Str x))"
proof -
  have g: "\<And>ob j y. get ob j = y \<longleftrightarrow> (map_of ob j = Some y \<or> (map_of ob j = None \<and> y = Undefined))"
    by (auto simp: get_def split: option.splits)
  have o: "\<And>v j. opt_get v j = Str x \<longleftrightarrow> (\<exists>ob. v = Obj ob \<and> map_of ob j = Some (Str x))"
    subgoal for v j by (cases v) (auto simp: get_def split: option.splits)
    done
  have o2: "\<And>v j ob'. opt_get v j = Obj ob' \<longleftrightarrow> (\<exists>ob. v = Obj ob \<and> map_of ob j = Some (Obj ob'))"
    subgoal for v j ob' by (cases v) (auto simp: get_def split: option.splits)
    done
  have g2: "\<And>ob j ob'. get ob j = Obj ob' \<longleftrightarrow> map_of ob j = Some (Obj ob')"
    by (auto simp: get_def split: option.splits)
  show ?thesis
    unfolding keyvalue_def o o2 g2 by blast
qed

lemma isModel_search_True:
  "isModel_search file = Inr True \<longleftrightarrow>
     keyvalue file ''type'' = Str ''ml-model'' \<or>
     keyvalue file ''modelType'' = Str ''temporal_fusion_transformer'' \<or>
     (\<exists>s. get file ''name'' = Str s \<and> js_includes s ''model'')"
  by (simp add: isModel_search_def opt_includes_True)

lemma isModel_statistics_True:
  "isModel_statistics file = Inr True \<longleftrightarrow>
     keyvalue file ''type'' = Str ''ml-model'' \<or>
     keyvalue file ''modelType'' = Str ''temporal_fusion_transformer'' \<or>
     (\<exists>s. get file ''name'' = Str s \<and> js_includes s ''model'')"
  by (simp add: isModel_statistics_def opt_includes_True)

lemma isModel_list_True:
  "isModel_list file = Inr True \<longleftrightarrow>
     keyvalue file ''type'' = Str ''ml-model'' \<or>
     keyvalue file ''modelType'' = Str ''temporal_fusion_transformer'' \<or>
     (\<exists>s. get file ''name'' = Str s \<and> (js_includes s ''model'' \<or> js_includes s ''tft''))"
proof (cases "get file ''name''")
  case (Str s)
  then show ?thesis by (simp add: isModel_list_def split: bool.splits)
qed (simp_all add: isModel_list_def)

lemma tft_only_in_list:
  "isModel_list [(''name'', Str ''tft-v1'')] = Inr True \<and>
   isModel_search [(''name'', Str ''tft-v1'')] = Inr False \<and>
   isModel_statistics [(''name'', Str ''tft-v1'')] = Inr False"
  by (simp add: isModel_list_def isModel_search_def isModel_statistics_def keyvalue_def get_def
      js_includes_def)

text \<open>
  Claim C8. In the search and statistics routes a row counts as a model exactly when its
  key-value \<open>type\<close> is \<open>ml-model\<close>, or its key-value \<open>modelType\<close> is
  \<open>temporal_fusion_transformer\<close>, or its name contains \<open>model\<close>. The list-models route
  accepts in addition the names that contain \<open>tft\<close>, and it is the only one to do so: a
  row named \<open>tft-v1\<close> with no key-values is a model there and in neither of the others.
\<close>

theorem isModel_heuristic:
  "(isModel_search file = Inr True \<longleftrightarrow>
      (\<exists>md kv. map_of file ''metadata'' = Some (Obj md) \<and> map_of md ''keyvalues'' = Some (Obj kv)
          \<and> map_of kv ''type'' = Some (Str ''ml-model'')) \<or>
      (\<exists>md kv. map_of file ''metadata'' = Some (Obj md) \<and> map_of md ''keyvalues'' = Some (Obj kv)
          \<and> map_of kv ''modelType'' = Some (Str ''temporal_fusion_transformer'')) \<or>
      (\<exists>u v. map_of file ''name'' = Some (Str (u @ ''model'' @ v))))
   \<and> (isModel_statistics file = Inr True \<longleftrightarrow> isModel_search file = Inr True)
   \<and> (isModel_list file = Inr True \<longleftrightarrow>
        isModel_search file = Inr True \<or> (\<exists>u v. map_of file ''name'' = Some (Str (u @ ''tft'' @ v))))
   \<and> isModel_list [(''name'', Str ''tft-v1'')] = Inr True
   \<and> isModel_search [(''name'', Str ''tft-v1'')] = Inr False
   \<and> isModel_statistics [(''name'', Str ''tft-v1'')] = Inr False"
proof -
  have n: "\<And>t. (\<exists>s. get file ''name'' = Str s \<and> js_includes s t)
            \<longleftrightarrow> (\<exists>u v. map_of file ''name'' = Some (Str (u @ t @ v)))"
    by (auto simp: get_def js_includes_iff split: option.splits)
  have a: "isModel_search file = Inr True \<longleftrightarrow>
      (\<exists>md kv. map_of file ''metadata'' = Some (Obj md) \<and> map_of md ''keyvalues'' = Some (Obj kv)
          \<and> map_of kv ''type'' = Some (Str ''ml-model'')) \<or>
      (\<exists>md kv. map_of file ''metadata'' = Some (Obj md) \<and> map_of md ''keyvalues'' = Some (Obj kv)
          \<and> map_of kv ''modelType'' = Some (Str ''temporal_fusion_transformer'')) \<or>
      (\<exists>u v. map_of file ''name'' = Some (Str (u @ ''model'' @ v)))"
    unfolding isModel_search_True keyvalue_Str n ..
  have b: "isModel_statistics file = Inr True \<longleftrightarrow> isModel_search file = Inr True"
    unfolding isModel_search_True isModel_statistics_True ..
  have c: "isModel_list file = Inr True \<longleftrightarrow>
        isModel_search file = Inr True \<or> (\<exists>u v. map_of file ''name'' = Some (Str (u @ ''tft'' @ v)))"
    unfolding isModel_search_True isModel_list_True n[symmetric] by blast
  from a b c tft_only_in_list show ?thesis by blast
qed

section \<open>Statistics: properties\<close>

lemma computeStats_empty:
  "computeStats env now [] =
     \<lparr>totalModels = 0, accuracyDistribution_high = 0, accuracyDistribution_medium = 0,
      accuracyDistribution_low = 0, recentUploads_last24h = 0, recentUploads_last7d = 0,
      recentUploads_last30d = 0, averageAccuracy = Num (Fin 0), stats_bestModel = Null,
      latestModel = Null\<rparr>"
  by (simp add: computeStats_def stat_init_def)

lemma pinList_loop_first_page_empty:
  assumes "pinList net 100 0 None = Inr (Some []) \<or> pinList net 100 0 None = Inr None"
  shows "pinList_loop net limit ''all'' [] 0 [] = Some ([PinList 100 0 None], Inr [])"
  using assms by (subst pinList_loop.simps) (auto simp: pageLimit_def statusParam_def)

lemma bucket_cases:
  "js_gt a (Fin 0.9) \<Longrightarrow> js_gt a (Fin 0)"
  "js_gt a (Fin 0) \<Longrightarrow> \<not> js_gt a (Fin 0.9) \<Longrightarrow> js_le a (Fin 0.9)"
  "js_gt a (Fin 0) \<Longrightarrow> \<not> js_ge a (Fin 0.7) \<Longrightarrow> js_lt a (Fin 0.7)"
  "js_ge a (Fin 0.7) \<Longrightarrow> js_gt a (Fin 0)"
  "js_le a (Fin 0.9) \<Longrightarrow> \<not> js_gt a (Fin 0.9)"
  "js_lt a (Fin 0.7) \<Longrightarrow> \<not> js_ge a (Fin 0.7)"
  "js_lt a (Fin 0.7) \<Longrightarrow> \<not> js_gt a (Fin 0.9)"
  by (cases a; simp add: js_gt_def js_ge_def)+

lemma high_foldl:
  "high (foldl (stat_step env now) st ms)
     = high st + length (filter (\<lambda>f. js_gt (accuracy_of env f) (Fin 0.9)) ms)"
  by (induction ms arbitrary: st)
     (auto simp: stat_step_def count_recent_def count_accuracy_def dest: bucket_cases)

lemma medium_foldl:
  "medium (foldl (stat_step env now) st ms)
     = medium st + length (filter (\<lambda>f. js_ge (accuracy_of env f) (Fin 0.7) \<and>
                                         js_le (accuracy_of env f) (Fin 0.9)) ms)"
  by (induction ms arbitrary: st)
     (auto simp: stat_step_def count_recent_def count_accuracy_def dest: bucket_cases)

lemma low_foldl:
  "low (foldl (stat_step env now) st ms)
     = low st + length (filter (\<lambda>f. js_gt (accuracy_of env f) (Fin 0) \<and>
                                      js_lt (accuracy_of env f) (Fin 0.7)) ms)"
  by (induction ms arbitrary: st)
     (auto simp: stat_step_def count_recent_def count_accuracy_def dest: bucket_cases)

lemma valid_foldl:
  "validAccuracyCount (foldl (stat_step env now) st ms)
     = validAccuracyCount st + length (filter (\<lambda>f. js_gt (accuracy_of env f) (Fin 0)) ms)"
  by (induction ms arbitrary: st)
     (auto simp: stat_step_def count_recent_def count_accuracy_def)

lemma total_foldl:
  "totalAccuracy (foldl (stat_step env now) st ms)
     = foldl js_add (totalAccuracy st)
         (map (accuracy_of env) (filter (\<lambda>f. js_gt (accuracy_of env f) (Fin 0)) ms))"
  by (induction ms arbitrary: st)
     (auto simp: stat_step_def count_recent_def count_accuracy_def)

lemma buckets_partition:
  "length (filter (\<lambda>f. js_gt (accuracy_of env f) (Fin 0.9)) ms)
   + length (filter (\<lambda>f. js_ge (accuracy_of env f) (Fin 0.7) \<and> js_le (accuracy_of env f) (Fin 0.9)) ms)
   + length (filter (\<lambda>f. js_gt (accuracy_of env f) (Fin 0) \<and> js_lt (accuracy_of env f) (Fin 0.7)) ms)
   = length (filter (\<lambda>f. js_gt (accuracy_of env f) (Fin 0)) ms)"
  by (induction ms) (auto dest: bucket_cases)

lemma last24h_foldl:
  "last24h (foldl (stat_step env now) st ms)
     = last24h st + length (filter (\<lambda>f. js_le (hoursDiff env now f) (Fin 24)) ms)"
  by (induction ms arbitrary: st)
     (auto simp: stat_step_def count_recent_def count_accuracy_def)

lemma last7d_foldl:
  "last7d (foldl (stat_step env now) st ms)
     = last7d st + length (filter (\<lambda>f. js_le (hoursDiff env now f) (Fin 168)) ms)"
  by (induction ms arbitrary: st)
     (auto simp: stat_step_def count_recent_def count_accuracy_def)

lemma last30d_foldl:
  "last30d (foldl (stat_step env now) st ms)
     = last30d st + length (filter (\<lambda>f. js_le (hoursDiff env now f) (Fin 720)) ms)"
  by (induction ms arbitrary: st)
     (auto simp: stat_step_def count_recent_def count_accuracy_def)

lemma js_le_widen: "js_le a (Fin x) \<Longrightarrow> x \<le> y \<Longrightarrow> js_le a (Fin y)"
  by (cases a) auto

lemma filter_length_mono:
  "(\<And>x. P x \<Longrightarrow> Q x) \<Longrightarrow> length (filter P xs) \<le> length (filter Q xs)"
  by (induction xs) auto

text \<open>
  Claim C9. When the first page of the pin list has no rows, the listing is
  \<open>{count: 0, rows: []}\<close>, and the statistics route answers with \<open>totalModels\<close> 0,
  \<open>averageAccuracy\<close> the number 0, and \<open>null\<close> for the best and the latest model.
\<close>

theorem zero_records:
  "(pinList net 100 0 None = Inr (Some []) \<or> pinList net 100 0 None = Inr None \<longrightarrow>
      listPinnedFiles net limit ''all'' = Some ([PinList 100 0 None], Listed 0 []) \<and>
      statistics env net now =
        Some ([PinList 100 0 None],
              Success \<lparr>totalModels = 0, accuracyDistribution_high = 0,
                       accuracyDistribution_medium = 0, accuracyDistribution_low = 0,
                       recentUploads_last24h = 0, recentUploads_last7d = 0,
                       recentUploads_last30d = 0, averageAccuracy = Num (Fin 0),
                       stats_bestModel = Null, latestModel = Null\<rparr>))"
proof
  assume a: "pinList net 100 0 None = Inr (Some []) \<or> pinList net 100 0 None = Inr None"
  have l: "listPinnedFiles net limit ''all'' = Some ([PinList 100 0 None], Listed 0 [])" for limit
    by (simp add: listPinnedFiles_def pinList_loop_first_page_empty [OF a])
  show "listPinnedFiles net limit ''all'' = Some ([PinList 100 0 None], Listed 0 []) \<and>
      statistics env net now =
        Some ([PinList 100 0 None],
              Success \<lparr>totalModels = 0, accuracyDistribution_high = 0,
                       accuracyDistribution_medium = 0, accuracyDistribution_low = 0,
                       recentUploads_last24h = 0, recentUploads_last7d = 0,
                       recentUploads_last30d = 0, averageAccuracy = Num (Fin 0),
                       stats_bestModel = Null, latestModel = Null\<rparr>)"
    by (simp add: l statistics_def computeStats_empty)
qed

theorem zero_records_witness:
  "listPinnedFiles (offline\<lparr>pinList := (\<lambda>lim off st. Inr (Some []))\<rparr>) (Fin 1000) ''all''
     = Some ([PinList 100 0 None], Listed 0 []) \<and>
   statistics sample_builtins (offline\<lparr>pinList := (\<lambda>lim off st. Inr (Some []))\<rparr>) 0
     = Some ([PinList 100 0 None],
              Success \<lparr>totalModels = 0, accuracyDistribution_high = 0,
                       accuracyDistribution_medium = 0, accuracyDistribution_low = 0,
                       recentUploads_last24h = 0, recentUploads_last7d = 0,
                       recentUploads_last30d = 0, averageAccuracy = Num (Fin 0),
                       stats_bestModel = Null, latestModel = Null\<rparr>)"
  using zero_records [of "offline\<lparr>pinList := (\<lambda>lim off st. Inr (Some []))\<rparr>" "Fin 1000"
      sample_builtins 0]
  by simp

text \<open>
  Claim C3. With \<open>valid\<close> the records whose parsed accuracy is greater than 0: \<open>high\<close>
  counts the valid records with accuracy above 0.9, \<open>medium\<close> those from 0.7 to 0.9,
  \<open>low\<close> those below 0.7, and the three counts add up to the number of valid records,
  so each valid record is in exactly one bucket and no other record is in any. The
  average is taken over the valid records alone, and \<open>totalModels\<close> counts every
  record.
\<close>

theorem accuracy_buckets:
  "(let s = computeStats env now models;
        a = accuracy_of env;
        valid = filter (\<lambda>f. js_gt (a f) (Fin 0)) models
    in accuracyDistribution_high s = length (filter (\<lambda>f. js_gt (a f) (Fin 0.9)) valid)
     \<and> accuracyDistribution_medium s
           = length (filter (\<lambda>f. js_ge (a f) (Fin 0.7) \<and> js_le (a f) (Fin 0.9)) valid)
     \<and> accuracyDistribution_low s = length (filter (\<lambda>f. js_lt (a f) (Fin 0.7)) valid)
     \<and> accuracyDistribution_high s + accuracyDistribution_medium s + accuracyDistribution_low s
           = length valid
     \<and> averageAccuracy s
           = (if valid = [] then Num (Fin 0)
              else Str (toFixed4 env (js_div (foldl js_add (Fin 0) (map a valid))
                                             (Fin (real (length valid))))))
     \<and> totalModels s = length models)"
proof -
  let ?a = "accuracy_of env"
  let ?valid = "filter (\<lambda>f. js_gt (?a f) (Fin 0)) models"
  let ?s = "computeStats env now models"
  have h: "accuracyDistribution_high ?s = length (filter (\<lambda>f. js_gt (?a f) (Fin 0.9)) ?valid)"
  proof -
    have "(\<lambda>f. js_gt (?a f) (Fin 0) \<and> js_gt (?a f) (Fin 0.9)) = (\<lambda>f. js_gt (?a f) (Fin 0.9))"
      by (auto dest: bucket_cases)
    then show ?thesis
      by (simp add: computeStats_def Let_def high_foldl stat_init_def)
  qed
  have m: "accuracyDistribution_medium ?s
       = length (filter (\<lambda>f. js_ge (?a f) (Fin 0.7) \<and> js_le (?a f) (Fin 0.9)) ?valid)"
  proof -
    have "(\<lambda>f. js_gt (?a f) (Fin 0) \<and> js_ge (?a f) (Fin 0.7) \<and> js_le (?a f) (Fin 0.9))
          = (\<lambda>f. js_ge (?a f) (Fin 0.7) \<and> js_le (?a f) (Fin 0.9))"
      by (auto dest: bucket_cases)
    then show ?thesis
      by (simp add: computeStats_def Let_def medium_foldl stat_init_def)
  qed
  have l: "accuracyDistribution_low ?s = length (filter (\<lambda>f. js_lt (?a f) (Fin 0.7)) ?valid)"
    by (simp add: computeStats_def Let_def low_foldl stat_init_def)
  have v: "validAccuracyCount (foldl (stat_step env now) stat_init models) = length ?valid"
    by (simp add: valid_foldl stat_init_def)
  have sum: "accuracyDistribution_high ?s + accuracyDistribution_medium ?s
        + accuracyDistribution_low ?s = length ?valid"
    using buckets_partition [of env models]
    by (simp add: computeStats_def Let_def high_foldl medium_foldl low_foldl stat_init_def)
  have t: "totalAccuracy (foldl (stat_step env now) stat_init models)
       = foldl js_add (Fin 0) (map ?a ?valid)"
    by (simp add: total_foldl stat_init_def)
  have avg: "averageAccuracy ?s
       = (if ?valid = [] then Num (Fin 0)
          else Str (toFixed4 env (js_div (foldl js_add (Fin 0) (map ?a ?valid))
                                         (Fin (real (length ?valid))))))"
    unfolding computeStats_def Let_def by (simp add: v t)
  have n: "totalModels ?s = length models"
    by (simp add: computeStats_def Let_def)
  from h m l sum avg n show ?thesis
    unfolding Let_def by blast
qed

text \<open>
  The three tests on the age of a record are independent of each other: each counter is
  the number of records whose age in hours is at most its own bound, and the bounds are
  nested.
\<close>

lemma recency_counts:
  "(let s = computeStats env now models;
        h = hoursDiff env now
    in recentUploads_last24h s = length (filter (\<lambda>f. js_le (h f) (Fin 24)) models)
     \<and> recentUploads_last7d s = length (filter (\<lambda>f. js_le (h f) (Fin 168)) models)
     \<and> recentUploads_last30d s = length (filter (\<lambda>f. js_le (h f) (Fin 720)) models)
     \<and> recentUploads_last24h s \<le> recentUploads_last7d s
     \<and> recentUploads_last7d s \<le> recentUploads_last30d s)"
proof -
  let ?s = "computeStats env now models"
  let ?h = "hoursDiff env now"
  have a: "recentUploads_last24h ?s = length (filter (\<lambda>f. js_le (?h f) (Fin 24)) models)"
    by (simp add: computeStats_def Let_def last24h_foldl stat_init_def)
  have b: "recentUploads_last7d ?s = length (filter (\<lambda>f. js_le (?h f) (Fin 168)) models)"
    by (simp add: computeStats_def Let_def last7d_foldl stat_init_def)
  have c: "recentUploads_last30d ?s = length (filter (\<lambda>f. js_le (?h f) (Fin 720)) models)"
    by (simp add: computeStats_def Let_def last30d_foldl stat_init_def)
  have ab: "recentUploads_last24h ?s \<le> recentUploads_last7d ?s"
    unfolding a b by (rule filter_length_mono) (erule js_le_widen, simp)
  have bc: "recentUploads_last7d ?s \<le> recentUploads_last30d ?s"
    unfolding b c by (rule filter_length_mono) (erule js_le_widen, simp)
  from a b c ab bc show ?thesis unfolding Let_def by blast
qed

section \<open>Best and latest model: properties\<close>

lemma js_insert_keep:
  "(\<And>y. y \<in> set ys \<Longrightarrow> \<not> js_gt (cmp x y) (Fin 0)) \<Longrightarrow> js_insert cmp x ys = x # ys"
  by (cases ys) auto

lemma js_sort_keep:
  "(\<And>x y. x \<in> set xs \<Longrightarrow> y \<in> set xs \<Longrightarrow> \<not> js_gt (cmp x y) (Fin 0)) \<Longrightarrow> js_sort cmp xs = xs"
proof (induction xs)
  case Nil
  then show ?case by (simp add: js_sort_def)
next
  case (Cons x xs)
  then have "js_sort cmp xs = xs" by simp
  moreover have "js_insert cmp x xs = x # xs"
    using Cons.prems by (intro js_insert_keep) simp
  ultimately show ?case by (simp add: js_sort_def)
qed

lemma filter_js_subset: "filter_js p xs = Inr ys \<Longrightarrow> set ys \<subseteq> set xs"
  by (induction xs arbitrary: ys) (auto split: sum.splits if_splits)

lemma pinned_file_no_timestamp:
  "get (pinned_file r) ''timestamp'' = Undefined" "get (pinned_file r) ''ipfsHash'' = Undefined"
  by (simp_all add: pinned_file_def get_def)

lemma latest_of_listed:
  assumes "filter_js isModel_statistics (map pinned_file raws) = Inr (m # ms)"
  shows "latestModel (computeStats env now (m # ms))
           = Obj [(''name'', get m ''name''), (''ipfsHash'', Undefined),
                  (''uploadedAt'', Undefined), (''modelType'', modelType_of m)]"
proof -
  have sub: "set (m # ms) \<subseteq> pinned_file ` set raws"
    using filter_js_subset [OF assms] by simp
  then have u: "\<And>f. f \<in> set (m # ms) \<Longrightarrow> get f ''timestamp'' = Undefined \<and> get f ''ipfsHash'' = Undefined"
    using pinned_file_no_timestamp by blast
  have "js_sort (\<lambda>a b. js_sub (newDate env (get b ''timestamp'')) (newDate env (get a ''timestamp'')))
          (m # ms) = m # ms"
    by (rule js_sort_keep) (simp add: u js_sub_def js_gt_def del: set_simps)
  then show ?thesis
    using u [of m] by (simp add: computeStats_def Let_def latest_of_def)
qed

lemma best_lt:
  "js_lt (bestAccuracy st) b \<Longrightarrow>
   (\<And>g. g \<in> set ms \<Longrightarrow> js_gt (accuracy_of env g) (Fin 0) \<Longrightarrow> js_gt b (accuracy_of env g)) \<Longrightarrow>
   js_lt (bestAccuracy (foldl (stat_step env now) st ms)) b"
proof (induction ms arbitrary: st)
  case Nil
  then show ?case by simp
next
  case (Cons g ms)
  have "js_lt (bestAccuracy (stat_step env now st g)) b"
    using Cons.prems(1) Cons.prems(2) [of g]
    by (simp add: stat_step_def count_recent_def count_accuracy_def js_gt_def)
  then show ?case using Cons.IH [of "stat_step env now st g"] Cons.prems(2) by simp
qed

lemma best_keep:
  "(\<And>g. g \<in> set ms \<Longrightarrow> \<not> js_gt (accuracy_of env g) (bestAccuracy st)) \<Longrightarrow>
   bestAccuracy (foldl (stat_step env now) st ms) = bestAccuracy st \<and>
   bestModel (foldl (stat_step env now) st ms) = bestModel st"
proof (induction ms arbitrary: st)
  case Nil
  then show ?case by simp
next
  case (Cons g ms)
  have s: "bestAccuracy (stat_step env now st g) = bestAccuracy st \<and>
        bestModel (stat_step env now st g) = bestModel st"
    using Cons.prems [of g]
    by (simp add: stat_step_def count_recent_def count_accuracy_def)
  with Cons.IH [of "stat_step env now st g"] Cons.prems show ?case by simp
qed

lemma bestModel_first_maximum:
  assumes pos: "js_gt (accuracy_of env f) (Fin 0)"
      and before: "\<And>g. g \<in> set pre \<Longrightarrow> js_gt (accuracy_of env g) (Fin 0)
                       \<Longrightarrow> js_gt (accuracy_of env f) (accuracy_of env g)"
      and after: "\<And>g. g \<in> set post \<Longrightarrow> \<not> js_gt (accuracy_of env g) (accuracy_of env f)"
  shows "stats_bestModel (computeStats env now (pre @ f # post))
           = Obj [(''name'', get f ''name''), (''ipfsHash'', get f ''ipfsHash''),
                  (''accuracy'', Num (accuracy_of env f)), (''modelType'', modelType_of f)]"
proof -
  let ?st1 = "foldl (stat_step env now) stat_init pre"
  let ?st2 = "stat_step env now ?st1 f"
  have "js_lt (bestAccuracy stat_init) (accuracy_of env f)"
    using pos by (simp add: stat_init_def js_gt_def)
  then have lt: "js_lt (bestAccuracy ?st1) (accuracy_of env f)"
    using before by (rule best_lt)
  then have b2: "bestAccuracy ?st2 = accuracy_of env f"
    and m2: "bestModel ?st2 = Obj [(''name'', get f ''name''), (''ipfsHash'', get f ''ipfsHash''),
                  (''accuracy'', Num (accuracy_of env f)), (''modelType'', modelType_of f)]"
    using pos by (simp_all add: stat_step_def count_recent_def count_accuracy_def js_gt_def)
  have "bestModel (foldl (stat_step env now) ?st2 post) = bestModel ?st2"
    using best_keep [of post env ?st2 now] after b2 by simp
  with m2 show ?thesis
    by (simp add: computeStats_def Let_def)
qed

lemma bestModel_none_valid:
  assumes "\<And>g. g \<in> set models \<Longrightarrow> \<not> js_gt (accuracy_of env g) (Fin 0)"
  shows "stats_bestModel (computeStats env now models) = Null"
  using best_keep [of models env stat_init now] assms
  by (simp add: computeStats_def Let_def stat_init_def)

text \<open>
  Claim C5. The best model is the first record that reaches the greatest accuracy among
  the records with accuracy above 0 (\<open>bestModel_first_maximum\<close>). The latest model is
  meant to be the first element after sorting by \<^verbatim>\<open>new Date(b.timestamp) - new
  Date(a.timestamp)\<close>, but the rows built by \<open>listPinnedFiles\<close> carry the pin date under
  \<open>date_pinned\<close> and have no property \<open>timestamp\<close>: the comparator is NaN on every pair,
  the order is left as it is, and the first model listed is reported
  (\<open>latest_of_listed\<close>). Evaluated on a provider page that lists an older row before a
  newer one: the older row is reported as the latest model, with \<open>ipfsHash\<close> and
  \<open>uploadedAt\<close> undefined, although the other row was pinned later.
\<close>

theorem latestModel_not_latest_pinned:
  "statistics sample_builtins
     two_rows
     1717286400000
   = Some ([PinList 100 0 None],
           Success \<lparr>totalModels = 2, accuracyDistribution_high = 1,
                    accuracyDistribution_medium = 1, accuracyDistribution_low = 0,
                    recentUploads_last24h = 0, recentUploads_last7d = 0,
                    recentUploads_last30d = 0, averageAccuracy = Str ''0.8750'',
                    stats_bestModel =
                      Obj [(''name'', Str ''model-newer''), (''ipfsHash'', Undefined),
                           (''accuracy'', Num (Fin 0.95)), (''modelType'', Str ''unknown'')],
                    latestModel =
                      Obj [(''name'', Str ''model-older''), (''ipfsHash'', Undefined),
                           (''uploadedAt'', Undefined), (''modelType'', Str ''unknown'')]\<rparr>)
   \<and> js_gt (newDate sample_builtins (date_pinned newer_row))
            (newDate sample_builtins (date_pinned older_row))"
proof -
  have loop: "pinList_loop two_rows (Fin 1000) ''all'' [] 0 []
        = Some ([PinList 100 0 None], Inr [older_row, newer_row])"
    by (subst pinList_loop.simps) (simp add: two_rows_def offline_def pageLimit_def statusParam_def js_ge_def)
  have listed: "listPinnedFiles two_rows (Fin 1000) ''all''
        = Some ([PinList 100 0 None], Listed 2 [pinned_file older_row, pinned_file newer_row])"
    by (simp add: listPinnedFiles_def loop)
  have flt: "filter_js isModel_statistics [pinned_file older_row, pinned_file newer_row]
        = Inr [pinned_file older_row, pinned_file newer_row]"
    by (simp add: isModel_statistics_def keyvalue_def pinned_file_def older_row_def newer_row_def
        get_def js_or_def)
  have acc: "accuracy_of sample_builtins (pinned_file older_row) = Fin 0.8"
      "accuracy_of sample_builtins (pinned_file newer_row) = Fin 0.95"
    by (simp_all add: accuracy_of_def keyvalue_def pinned_file_def older_row_def newer_row_def
        get_def js_or_def sample_builtins_def)
  have hd: "hoursDiff sample_builtins now (pinned_file r) = NaN" for now r
    by (simp add: hoursDiff_def pinned_file_no_timestamp js_sub_def)
  have mt: "modelType_of (pinned_file older_row) = Str ''unknown''"
      "modelType_of (pinned_file newer_row) = Str ''unknown''"
    by (simp_all add: modelType_of_def keyvalue_def pinned_file_def older_row_def newer_row_def
        get_def js_or_def)
  have nm: "get (pinned_file older_row) ''name'' = Str ''model-older''"
      "get (pinned_file newer_row) ''name'' = Str ''model-newer''"
    by (simp_all add: pinned_file_def older_row_def newer_row_def get_def)
  have srt: "js_sort (\<lambda>a b. js_sub (newDate sample_builtins (get b ''timestamp''))
                                  (newDate sample_builtins (get a ''timestamp'')))
               [pinned_file older_row, pinned_file newer_row]
             = [pinned_file older_row, pinned_file newer_row]"
    by (simp add: js_sort_def pinned_file_no_timestamp js_sub_def js_gt_def)
  have s1: "stat_step sample_builtins 1717286400000 stat_init (pinned_file older_row)
     = \<lparr>high = 0, medium = 1, low = 0, last24h = 0, last7d = 0, last30d = 0,
        totalAccuracy = Fin 0.8, validAccuracyCount = 1, bestAccuracy = Fin 0.8,
        bestModel = Obj [(''name'', Str ''model-older''), (''ipfsHash'', Undefined),
                         (''accuracy'', Num (Fin 0.8)), (''modelType'', Str ''unknown'')]\<rparr>"
    by (simp add: stat_step_def count_recent_def count_accuracy_def stat_init_def acc hd mt nm
        pinned_file_no_timestamp js_gt_def js_ge_def)
  have s2: "stat_step sample_builtins 1717286400000
       \<lparr>high = 0, medium = 1, low = 0, last24h = 0, last7d = 0, last30d = 0,
        totalAccuracy = Fin 0.8, validAccuracyCount = 1, bestAccuracy = Fin 0.8,
        bestModel = Obj [(''name'', Str ''model-older''), (''ipfsHash'', Undefined),
                         (''accuracy'', Num (Fin 0.8)), (''modelType'', Str ''unknown'')]\<rparr>
       (pinned_file newer_row)
     = \<lparr>high = 1, medium = 1, low = 0, last24h = 0, last7d = 0, last30d = 0,
        totalAccuracy = Fin 1.75, validAccuracyCount = 2, bestAccuracy = Fin 0.95,
        bestModel = Obj [(''name'', Str ''model-newer''), (''ipfsHash'', Undefined),
                         (''accuracy'', Num (Fin 0.95)), (''modelType'', Str ''unknown'')]\<rparr>"
    by (simp add: stat_step_def count_recent_def count_accuracy_def acc hd mt nm
        pinned_file_no_timestamp js_gt_def js_ge_def)
  have fl: "foldl (stat_step sample_builtins 1717286400000) stat_init
              [pinned_file older_row, pinned_file newer_row]
     = \<lparr>high = 1, medium = 1, low = 0, last24h = 0, last7d = 0, last30d = 0,
        totalAccuracy = Fin 1.75, validAccuracyCount = 2, bestAccuracy = Fin 0.95,
        bestModel = Obj [(''name'', Str ''model-newer''), (''ipfsHash'', Undefined),
                         (''accuracy'', Num (Fin 0.95)), (''modelType'', Str ''unknown'')]\<rparr>"
    by (simp only: foldl.simps s1 s2)
  have avg: "toFixed4 sample_builtins (js_div (Fin 1.75) (Fin (real 2))) = ''0.8750''"
    by (simp add: sample_builtins_def)
  have cs: "computeStats sample_builtins 1717286400000 [pinned_file older_row, pinned_file newer_row]
     = \<lparr>totalModels = 2, accuracyDistribution_high = 1,
                    accuracyDistribution_medium = 1, accuracyDistribution_low = 0,
                    recentUploads_last24h = 0, recentUploads_last7d = 0,
                    recentUploads_last30d = 0, averageAccuracy = Str ''0.8750'',
                    stats_bestModel =
                      Obj [(''name'', Str ''model-newer''), (''ipfsHash'', Undefined),
                           (''accuracy'', Num (Fin 0.95)), (''modelType'', Str ''unknown'')],
                    latestModel =
                      Obj [(''name'', Str ''model-older''), (''ipfsHash'', Undefined),
                           (''uploadedAt'', Undefined), (''modelType'', Str ''unknown'')]\<rparr>"
    unfolding computeStats_def fl latest_of_def srt
    using avg by (simp add: Let_def mt nm pinned_file_no_timestamp)
  have later: "js_gt (newDate sample_builtins (date_pinned newer_row))
            (newDate sample_builtins (date_pinned older_row))"
    by (simp add: newer_row_def older_row_def sample_builtins_def js_gt_def)
  have "statistics sample_builtins two_rows 1717286400000
      = Some ([PinList 100 0 None],
              Success (computeStats sample_builtins 1717286400000
                         [pinned_file older_row, pinned_file newer_row]))"
    unfolding statistics_def listed by (simp only: flt prod.case list_result.case sum.case option.case)
  with later show ?thesis
    unfolding cs by blast
qed

section \<open>Recency counters: properties\<close>

lemma hoursDiff_listed: "hoursDiff env now (pinned_file r) = NaN"
  by (simp add: hoursDiff_def pinned_file_no_timestamp js_sub_def)

lemma recency_zero_on_listed:
  assumes "filter_js isModel_statistics (map pinned_file raws) = Inr models"
  shows "recentUploads_last24h (computeStats env now models) = 0 \<and>
         recentUploads_last7d (computeStats env now models) = 0 \<and>
         recentUploads_last30d (computeStats env now models) = 0"
proof -
  have "set models \<subseteq> pinned_file ` set raws"
    using filter_js_subset [OF assms] by simp
  then have nan: "hoursDiff env now f = NaN" if "f \<in> set models" for f
    using that hoursDiff_listed by blast
  have none: "filter (\<lambda>f. js_le (hoursDiff env now f) (Fin b)) models = []" for b
    by (rule filter_False) (simp add: nan)
  have a: "recentUploads_last24h (computeStats env now models)
             = length (filter (\<lambda>f. js_le (hoursDiff env now f) (Fin 24)) models)"
    by (simp add: computeStats_def Let_def last24h_foldl stat_init_def)
  have b: "recentUploads_last7d (computeStats env now models)
             = length (filter (\<lambda>f. js_le (hoursDiff env now f) (Fin 168)) models)"
    by (simp add: computeStats_def Let_def last7d_foldl stat_init_def)
  have c: "recentUploads_last30d (computeStats env now models)
             = length (filter (\<lambda>f. js_le (hoursDiff env now f) (Fin 720)) models)"
    by (simp add: computeStats_def Let_def last30d_foldl stat_init_def)
  show ?thesis unfolding a b c none by simp
qed

text \<open>
  Claim C6. The three counters are nested (\<open>recency_counts\<close>), but the age of a record is
  taken from its property \<open>timestamp\<close>, and the rows built by \<open>listPinnedFiles\<close> carry the
  pin date under \<open>date_pinned\<close>: the age is NaN on every record the handler receives, no
  test succeeds, and all three counters stay 0 (\<open>recency_zero_on_listed\<close>). Evaluated on
  a provider page with one model row pinned two hours before the current time: the row is
  counted in \<open>totalModels\<close> and in none of \<open>last24h\<close>, \<open>last7d\<close>, \<open>last30d\<close>.
\<close>

theorem recentUploads_miss_recent_row:
  "statistics sample_builtins one_row 1717207200000
   = Some ([PinList 100 0 None],
           Success \<lparr>totalModels = 1, accuracyDistribution_high = 1,
                    accuracyDistribution_medium = 0, accuracyDistribution_low = 0,
                    recentUploads_last24h = 0, recentUploads_last7d = 0,
                    recentUploads_last30d = 0, averageAccuracy = Str ''0.9500'',
                    stats_bestModel =
                      Obj [(''name'', Str ''model-newer''), (''ipfsHash'', Undefined),
                           (''accuracy'', Num (Fin 0.95)), (''modelType'', Str ''unknown'')],
                    latestModel =
                      Obj [(''name'', Str ''model-newer''), (''ipfsHash'', Undefined),
                           (''uploadedAt'', Undefined), (''modelType'', Str ''unknown'')]\<rparr>)
   \<and> js_div (js_sub (Fin 1717207200000) (newDate sample_builtins (date_pinned newer_row)))
            (Fin (1000 * 60 * 60)) = Fin 2"
proof -
  have loop: "pinList_loop one_row (Fin 1000) ''all'' [] 0 []
        = Some ([PinList 100 0 None], Inr [newer_row])"
    by (subst pinList_loop.simps)
       (simp add: one_row_def offline_def pageLimit_def statusParam_def js_ge_def)
  have listed: "listPinnedFiles one_row (Fin 1000) ''all''
        = Some ([PinList 100 0 None], Listed 1 [pinned_file newer_row])"
    by (simp add: listPinnedFiles_def loop)
  have flt: "filter_js isModel_statistics [pinned_file newer_row] = Inr [pinned_file newer_row]"
    by (simp add: isModel_statistics_def keyvalue_def pinned_file_def newer_row_def
        get_def js_or_def)
  have acc: "accuracy_of sample_builtins (pinned_file newer_row) = Fin 0.95"
    by (simp add: accuracy_of_def keyvalue_def pinned_file_def newer_row_def
        get_def js_or_def sample_builtins_def)
  have mt: "modelType_of (pinned_file newer_row) = Str ''unknown''"
    by (simp add: modelType_of_def keyvalue_def pinned_file_def newer_row_def get_def js_or_def)
  have nm: "get (pinned_file newer_row) ''name'' = Str ''model-newer''"
    by (simp add: pinned_file_def newer_row_def get_def)
  have srt: "js_sort (\<lambda>a b. js_sub (newDate sample_builtins (get b ''timestamp''))
                                  (newDate sample_builtins (get a ''timestamp'')))
               [pinned_file newer_row] = [pinned_file newer_row]"
    by (simp add: js_sort_def)
  have fl: "foldl (stat_step sample_builtins 1717207200000) stat_init [pinned_file newer_row]
     = \<lparr>high = 1, medium = 0, low = 0, last24h = 0, last7d = 0, last30d = 0,
        totalAccuracy = Fin 0.95, validAccuracyCount = 1, bestAccuracy = Fin 0.95,
        bestModel = Obj [(''name'', Str ''model-newer''), (''ipfsHash'', Undefined),
                         (''accuracy'', Num (Fin 0.95)), (''modelType'', Str ''unknown'')]\<rparr>"
    by (simp add: stat_step_def count_recent_def count_accuracy_def stat_init_def acc
        hoursDiff_listed mt nm pinned_file_no_timestamp js_gt_def js_ge_def)
  have avg: "toFixed4 sample_builtins (js_div (Fin 0.95) (Fin (real 1))) = ''0.9500''"
    by (simp add: sample_builtins_def)
  have cs: "computeStats sample_builtins 1717207200000 [pinned_file newer_row]
     = \<lparr>totalModels = 1, accuracyDistribution_high = 1,
                    accuracyDistribution_medium = 0, accuracyDistribution_low = 0,
                    recentUploads_last24h = 0, recentUploads_last7d = 0,
                    recentUploads_last30d = 0, averageAccuracy = Str ''0.9500'',
                    stats_bestModel =
                      Obj [(''name'', Str ''model-newer''), (''ipfsHash'', Undefined),
                           (''accuracy'', Num (Fin 0.95)), (''modelType'', Str ''unknown'')],
                    latestModel =
                      Obj [(''name'', Str ''model-newer''), (''ipfsHash'', Undefined),
                           (''uploadedAt'', Undefined), (''modelType'', Str ''unknown'')]\<rparr>"
    unfolding computeStats_def fl latest_of_def srt
    using avg by (simp add: Let_def mt nm pinned_file_no_timestamp)
  have age: "js_div (js_sub (Fin 1717207200000) (newDate sample_builtins (date_pinned newer_row)))
            (Fin (1000 * 60 * 60)) = Fin 2"
    by (simp add: newer_row_def sample_builtins_def js_sub_def)
  have "statistics sample_builtins one_row 1717207200000
      = Some ([PinList 100 0 None],
              Success (computeStats sample_builtins 1717207200000 [pinned_file newer_row]))"
    unfolding statistics_def listed by (simp only: flt prod.case list_result.case sum.case option.case)
  with age show ?thesis
    unfolding cs by blast
qed

section \<open>Sorting: properties\<close>

lemma js_sub_pos: "js_gt (js_sub b a) (Fin 0) \<longleftrightarrow> js_gt b a"
  by (cases a; cases b) (simp_all add: js_sub_def js_gt_def)

lemma js_neg_sub_pos: "js_gt (js_neg (js_sub b a)) (Fin 0) \<longleftrightarrow> js_gt a b"
  by (cases a; cases b) (simp_all add: js_sub_def js_gt_def)

lemma js_gt_total: "a \<noteq> NaN \<Longrightarrow> b \<noteq> NaN \<Longrightarrow> a \<noteq> b \<Longrightarrow> js_gt a b \<or> js_gt b a"
  by (cases a; cases b) (simp_all add: js_gt_def, arith)

lemma js_gt_trans: "js_gt a b \<Longrightarrow> js_gt b c \<Longrightarrow> js_gt a c"
  by (cases a; cases b; cases c) (auto simp: js_gt_def)

lemma js_gt_asym: "js_gt a b \<Longrightarrow> \<not> js_gt b a"
  by (cases a; cases b) (auto simp: js_gt_def)

lemma set_js_insert: "set (js_insert c x ys) = insert x (set ys)"
  by (induction ys) auto

lemma set_js_sort: "set (js_sort c xs) = set xs"
  by (induction xs) (simp_all add: js_sort_def set_js_insert)

lemma distinct_js_insert: "distinct ys \<Longrightarrow> x \<notin> set ys \<Longrightarrow> distinct (js_insert c x ys)"
proof (induction ys)
  case Nil
  then show ?case by simp
next
  case (Cons y ys)
  then have "distinct (js_insert c x ys)" by simp
  with Cons.prems show ?case by (cases "js_gt (c x y) (Fin 0)") (auto simp: set_js_insert)
qed

lemma distinct_js_sort: "distinct xs \<Longrightarrow> distinct (js_sort c xs)"
  by (induction xs) (simp_all add: js_sort_def distinct_js_insert set_js_sort [unfolded js_sort_def])

lemma js_insert_sorted:
  assumes "sorted_wrt R ys"
      and "\<And>y. y \<in> set ys \<Longrightarrow> js_gt (c x y) (Fin 0) \<longleftrightarrow> R y x"
      and "\<And>y. y \<in> set ys \<Longrightarrow> R x y \<or> R y x"
      and "\<And>y z. y \<in> set ys \<Longrightarrow> z \<in> set ys \<Longrightarrow> R x y \<Longrightarrow> R y z \<Longrightarrow> R x z"
  shows "sorted_wrt R (js_insert c x ys)"
  using assms
proof (induction ys)
  case Nil
  show ?case by simp
next
  case (Cons y ys)
  have y_in: "y \<in> set (y # ys)" by simp
  have tail: "sorted_wrt R ys" and head: "\<And>z. z \<in> set ys \<Longrightarrow> R y z"
    using Cons.prems(1) by simp_all
  show ?case
  proof (cases "js_gt (c x y) (Fin 0)")
    case True
    then have yx: "R y x" using Cons.prems(2) [OF y_in] by simp
    have "sorted_wrt R (js_insert c x ys)"
    proof (rule Cons.IH [OF tail])
      fix z assume "z \<in> set ys"
      then have z: "z \<in> set (y # ys)" by simp
      show "js_gt (c x z) (Fin 0) \<longleftrightarrow> R z x" by (rule Cons.prems(2) [OF z])
      show "R x z \<or> R z x" by (rule Cons.prems(3) [OF z])
    next
      fix z w assume "z \<in> set ys" "w \<in> set ys" and r: "R x z" "R z w"
      then have "z \<in> set (y # ys)" "w \<in> set (y # ys)" by simp_all
      then show "R x w" using r by (rule Cons.prems(4))
    qed
    moreover have "\<And>z. z \<in> set (js_insert c x ys) \<Longrightarrow> R y z"
      using yx head by (auto simp: set_js_insert)
    ultimately have "sorted_wrt R (y # js_insert c x ys)" by simp
    with True show ?thesis by simp
  next
    case False
    then have "\<not> R y x" using Cons.prems(2) [OF y_in] by simp
    then have xy: "R x y" using Cons.prems(3) [OF y_in] by simp
    have "R x z" if z: "z \<in> set ys" for z
    proof -
      from z have "z \<in> set (y # ys)" by simp
      from y_in this xy head [OF z] show ?thesis by (rule Cons.prems(4))
    qed
    with xy have "sorted_wrt R (x # y # ys)" using Cons.prems(1) by simp
    with False show ?thesis by simp
  qed
qed

lemma js_sort_sorted:
  assumes "distinct xs"
      and "\<And>x y. x \<in> set xs \<Longrightarrow> y \<in> set xs \<Longrightarrow> js_gt (c x y) (Fin 0) \<longleftrightarrow> R y x"
      and "\<And>x y. x \<in> set xs \<Longrightarrow> y \<in> set xs \<Longrightarrow> x \<noteq> y \<Longrightarrow> R x y \<or> R y x"
      and "\<And>x y z. x \<in> set xs \<Longrightarrow> y \<in> set xs \<Longrightarrow> z \<in> set xs \<Longrightarrow> R x y \<Longrightarrow> R y z \<Longrightarrow> R x z"
  shows "sorted_wrt R (js_sort c xs)"
  using assms
proof (induction xs)
  case Nil
  show ?case by (simp add: js_sort_def)
next
  case (Cons x xs)
  have x_in: "x \<in> set (x # xs)" by simp
  have up: "\<And>y. y \<in> set xs \<Longrightarrow> y \<in> set (x # xs)" by simp
  have dx: "distinct xs" and nx: "x \<notin> set xs" using Cons.prems(1) by simp_all
  have s: "sorted_wrt R (js_sort c xs)"
  proof (rule Cons.IH [OF dx])
    fix a b assume a: "a \<in> set xs" and b: "b \<in> set xs"
    show "js_gt (c a b) (Fin 0) \<longleftrightarrow> R b a" by (rule Cons.prems(2) [OF up [OF a] up [OF b]])
    show "R a b \<or> R b a" if "a \<noteq> b" by (rule Cons.prems(3) [OF up [OF a] up [OF b] that])
  next
    fix a b d assume "a \<in> set xs" "b \<in> set xs" "d \<in> set xs" and r: "R a b" "R b d"
    then have "a \<in> set (x # xs)" "b \<in> set (x # xs)" "d \<in> set (x # xs)" by simp_all
    then show "R a d" using r by (rule Cons.prems(4))
  qed
  have "sorted_wrt R (js_insert c x (js_sort c xs))"
  proof (rule js_insert_sorted [OF s])
    fix y assume "y \<in> set (js_sort c xs)"
    then have y: "y \<in> set xs" by (simp add: set_js_sort)
    show "js_gt (c x y) (Fin 0) \<longleftrightarrow> R y x" by (rule Cons.prems(2) [OF x_in up [OF y]])
    from y nx have "x \<noteq> y" by blast
    then show "R x y \<or> R y x" by (rule Cons.prems(3) [OF x_in up [OF y]])
  next
    fix y z assume "y \<in> set (js_sort c xs)" "z \<in> set (js_sort c xs)" and r: "R x y" "R y z"
    then have "y \<in> set (x # xs)" "z \<in> set (x # xs)" by (simp_all add: set_js_sort)
    with x_in show "R x z" using r by (rule Cons.prems(4))
  qed
  then show ?case by (simp add: js_sort_def)
qed

lemma sorted_wrt_unique:
  assumes "sorted_wrt R xs" "sorted_wrt R ys" "set xs = set ys" "distinct xs" "distinct ys"
      and "\<And>a b. R a b \<Longrightarrow> \<not> R b a"
  shows "xs = ys"
  using assms(1-5)
proof (induction xs arbitrary: ys)
  case Nil
  then show ?case by simp
next
  case (Cons x xs)
  from Cons.prems(3) obtain y ys' where ys: "ys = y # ys'" by (cases ys) auto
  have sx: "sorted_wrt R xs" and hx: "\<And>z. z \<in> set xs \<Longrightarrow> R x z"
    using Cons.prems(1) by simp_all
  have sy: "sorted_wrt R ys'" and hy: "\<And>z. z \<in> set ys' \<Longrightarrow> R y z"
    using Cons.prems(2) ys by simp_all
  have eq: "insert x (set xs) = insert y (set ys')" using Cons.prems(3) ys by simp
  have "x = y"
  proof (rule ccontr)
    assume ne: "x \<noteq> y"
    with eq have "x \<in> set ys'" "y \<in> set xs" by auto
    then have "R y x" "R x y" using hx hy by auto
    with assms(6) show False by blast
  qed
  have dx: "x \<notin> set xs" "distinct xs" and dy: "y \<notin> set ys'" "distinct ys'"
    using Cons.prems(4,5) ys by simp_all
  have "set xs = set ys'" using eq dx(1) dy(1) \<open>x = y\<close> by auto
  have "xs = ys'" using sx sy \<open>set xs = set ys'\<close> dx(2) dy(2) by (rule Cons.IH)
  with \<open>x = y\<close> ys show ?case by simp
qed

text \<open>
  Claim C7, as amended. For every list of records whose accuracies are numbers (none is
  NaN) and pairwise different, sorting by \<open>accuracy\<close> ascending gives the reverse of
  sorting descending.
\<close>

theorem sortModels_accuracy_reversed:
  assumes "distinct (map accuracy models)" and "NaN \<notin> accuracy ` set models"
  shows "sortModels env models ''accuracy'' ''asc''
           = rev (sortModels env models ''accuracy'' ''desc'')"
proof -
  let ?desc = "\<lambda>a b. js_sub (accuracy b) (accuracy a)"
  let ?asc = "\<lambda>a b. js_neg (js_sub (accuracy b) (accuracy a))"
  let ?R = "\<lambda>a b :: model. js_gt (accuracy b) (accuracy a)"
  have d: "distinct models" using assms(1) by (simp add: distinct_map)
  have inj: "\<And>x y. x \<in> set models \<Longrightarrow> y \<in> set models \<Longrightarrow> x \<noteq> y \<Longrightarrow> accuracy x \<noteq> accuracy y"
    using assms(1) by (meson distinct_map inj_onD)
  have nn: "\<And>x. x \<in> set models \<Longrightarrow> accuracy x \<noteq> NaN"
    using assms(2) by (metis imageI)
  have sa: "sortModels env models ''accuracy'' ''asc'' = js_sort ?asc models"
    by (simp add: sortModels_def comparison_def)
  have sd: "sortModels env models ''accuracy'' ''desc'' = js_sort ?desc models"
    by (simp add: sortModels_def comparison_def)
  have total: "js_gt (accuracy x) (accuracy y) \<or> js_gt (accuracy y) (accuracy x)"
    if "x \<in> set models" "y \<in> set models" "x \<noteq> y" for x y
    using js_gt_total [OF nn [OF that(1)] nn [OF that(2)] inj [OF that]] .
  have asc_sorted: "sorted_wrt ?R (js_sort ?asc models)"
  proof (rule js_sort_sorted [OF d])
    fix x y z :: model
    show "js_gt (js_neg (js_sub (accuracy y) (accuracy x))) (Fin 0) \<longleftrightarrow> js_gt (accuracy x) (accuracy y)"
      by (rule js_neg_sub_pos)
    show "js_gt (accuracy y) (accuracy x) \<or> js_gt (accuracy x) (accuracy y)"
      if "x \<in> set models" "y \<in> set models" "x \<noteq> y"
      using total [OF that] by blast
    show "js_gt (accuracy z) (accuracy x)"
      if "js_gt (accuracy y) (accuracy x)" "js_gt (accuracy z) (accuracy y)"
      using that(2) that(1) by (rule js_gt_trans)
  qed
  have desc_sorted: "sorted_wrt (\<lambda>a b. ?R b a) (js_sort ?desc models)"
  proof (rule js_sort_sorted [OF d])
    fix x y z :: model
    show "js_gt (js_sub (accuracy y) (accuracy x)) (Fin 0) \<longleftrightarrow> js_gt (accuracy y) (accuracy x)"
      by (rule js_sub_pos)
    show "js_gt (accuracy x) (accuracy y) \<or> js_gt (accuracy y) (accuracy x)"
      if "x \<in> set models" "y \<in> set models" "x \<noteq> y"
      using total [OF that] .
    show "js_gt (accuracy x) (accuracy z)"
      if "js_gt (accuracy x) (accuracy y)" "js_gt (accuracy y) (accuracy z)"
      using that by (rule js_gt_trans)
  qed
  then have rev_sorted: "sorted_wrt ?R (rev (js_sort ?desc models))"
    by (simp add: sorted_wrt_rev)
  have "js_sort ?asc models = rev (js_sort ?desc models)"
  proof (rule sorted_wrt_unique [OF asc_sorted rev_sorted])
    show "set (js_sort ?asc models) = set (rev (js_sort ?desc models))"
      by (simp add: set_js_sort)
    show "distinct (js_sort ?asc models)" using d by (rule distinct_js_sort)
    show "distinct (rev (js_sort ?desc models))" using d by (simp add: distinct_js_sort)
    show "\<And>a b :: model. js_gt (accuracy b) (accuracy a) \<Longrightarrow> \<not> js_gt (accuracy a) (accuracy b)"
      by (rule js_gt_asym)
  qed
  then show ?thesis by (simp add: sa sd)
qed

theorem sortModels_accuracy_reversed_witness:
  "distinct (map accuracy three_models) \<and> NaN \<notin> accuracy ` set three_models \<and>
   sortModels sample_builtins three_models ''accuracy'' ''asc''
     = rev (sortModels sample_builtins three_models ''accuracy'' ''desc'') \<and>
   map name (sortModels sample_builtins three_models ''accuracy'' ''desc'')
     = [''model-b'', ''model-a'', ''model-c'']"
proof -
  have h: "distinct (map accuracy three_models)" "NaN \<notin> accuracy ` set three_models"
    by (simp_all add: three_models_def)
  have "map name (sortModels sample_builtins three_models ''accuracy'' ''desc'')
     = [''model-b'', ''model-a'', ''model-c'']"
    by (simp add: three_models_def sortModels_def comparison_def js_sort_def js_sub_def js_gt_def)
  with h sortModels_accuracy_reversed [OF h, of sample_builtins] show ?thesis by blast
qed

text \<open>
  Claim C7 as stated asks only that no two accuracies are equal. A record whose accuracy
  is NaN (the key-value does not parse as a number) is different from every other, yet
  the comparator is NaN against it, which the sort reads as a tie: both orders leave the
  list as it is.
\<close>

theorem sortModels_accuracy_nan_counterexample:
  "distinct (map accuracy nan_models) \<and>
   sortModels sample_builtins nan_models ''accuracy'' ''asc''
     \<noteq> rev (sortModels sample_builtins nan_models ''accuracy'' ''desc'')"
  by (simp add: nan_models_def sortModels_def comparison_def js_sort_def js_sub_def js_gt_def)

section \<open>Paginated listing: properties\<close>

lemma pinList_loop_unfold:
  "pinList_loop net limit status allFiles pageOffset trace =
     (case pinList net pageLimit pageOffset (statusParam status) of
        Inl error \<Rightarrow> Some (trace @ [PinList pageLimit pageOffset (statusParam status)], Inl error)
      | Inr None \<Rightarrow> Some (trace @ [PinList pageLimit pageOffset (statusParam status)], Inr allFiles)
      | Inr (Some rows) \<Rightarrow>
          (if rows = [] then Some (trace @ [PinList pageLimit pageOffset (statusParam status)], Inr allFiles)
           else if js_ge (Fin (real (length allFiles + length rows))) limit \<or> length rows < pageLimit
           then Some (trace @ [PinList pageLimit pageOffset (statusParam status)], Inr (allFiles @ rows))
           else pinList_loop net limit status (allFiles @ rows) (pageOffset + pageLimit)
                  (trace @ [PinList pageLimit pageOffset (statusParam status)])))"
  by (subst pinList_loop.simps) (simp split: sum.splits option.splits)

lemma pinList_loop_run:
  assumes "\<And>k. k \<le> n \<Longrightarrow>
             \<exists>r. pinList net pageLimit (off + pageLimit * k) (statusParam status) = Inr r \<and>
                 pgs k = (case r of None \<Rightarrow> [] | Some rows \<Rightarrow> rows)"
      and "\<And>k. k < n \<Longrightarrow> pgs k \<noteq> [] \<and> \<not> length (pgs k) < pageLimit \<and>
             \<not> js_ge (Fin (real (length acc + length (concat (map pgs [0..<Suc k]))))) limit"
      and "pgs n = [] \<or> length (pgs n) < pageLimit \<or>
             js_ge (Fin (real (length acc + length (concat (map pgs [0..<Suc n]))))) limit"
  shows "pinList_loop net limit status acc off tr =
           Some (tr @ map (\<lambda>k. PinList pageLimit (off + pageLimit * k) (statusParam status)) [0..<Suc n],
                 Inr (acc @ concat (map pgs [0..<Suc n])))"
  using assms
proof (induction n arbitrary: acc off tr pgs)
  case 0
  from "0.prems"(1) [of 0] obtain r
    where p: "pinList net pageLimit off (statusParam status) = Inr r"
      and r: "pgs 0 = (case r of None \<Rightarrow> [] | Some rows \<Rightarrow> rows)" by auto
  show ?case
  proof (cases r)
    case None
    with p r show ?thesis by (subst pinList_loop_unfold) simp
  next
    case (Some rows)
    with r have "rows = pgs 0" by simp
    with p Some "0.prems"(3) show ?thesis by (subst pinList_loop_unfold) auto
  qed
next
  case (Suc n)
  have c0: "pgs 0 \<noteq> [] \<and> \<not> length (pgs 0) < pageLimit \<and>
      \<not> js_ge (Fin (real (length acc + length (pgs 0)))) limit"
    using Suc.prems(2) [of 0] by simp
  from Suc.prems(1) [of 0] obtain r
    where "pinList net pageLimit off (statusParam status) = Inr r"
      and "pgs 0 = (case r of None \<Rightarrow> [] | Some rows \<Rightarrow> rows)" by auto
  with c0 have p: "pinList net pageLimit off (statusParam status) = Inr (Some (pgs 0))"
    by (cases r) auto
  have step: "pinList_loop net limit status acc off tr
        = pinList_loop net limit status (acc @ pgs 0) (off + pageLimit)
            (tr @ [PinList pageLimit off (statusParam status)])"
    using c0 by (subst pinList_loop_unfold) (simp add: p)
  have shift: "concat (map pgs [0..<Suc (Suc k)]) = pgs 0 @ concat (map (\<lambda>j. pgs (Suc j)) [0..<Suc k])" for k
  proof -
    have "[0..<Suc (Suc k)] = 0 # map Suc [0..<Suc k]"
      by (metis map_Suc_upt upt_conv_Cons zero_less_Suc)
    then show ?thesis by (simp add: comp_def del: upt_Suc)
  qed
  have shiftq: "map (\<lambda>k. PinList pageLimit (off + pageLimit * k) (statusParam status)) [0..<Suc (Suc n)]
        = PinList pageLimit off (statusParam status)
          # map (\<lambda>k. PinList pageLimit (off + pageLimit + pageLimit * k) (statusParam status)) [0..<Suc n]"
  proof -
    have "[0..<Suc (Suc n)] = 0 # map Suc [0..<Suc n]"
      by (metis map_Suc_upt upt_conv_Cons zero_less_Suc)
    then show ?thesis by (simp add: comp_def add.assoc del: upt_Suc)
  qed
  have ih: "pinList_loop net limit status (acc @ pgs 0) (off + pageLimit)
              (tr @ [PinList pageLimit off (statusParam status)])
        = Some ((tr @ [PinList pageLimit off (statusParam status)])
                  @ map (\<lambda>k. PinList pageLimit (off + pageLimit + pageLimit * k) (statusParam status)) [0..<Suc n],
                Inr ((acc @ pgs 0) @ concat (map (\<lambda>j. pgs (Suc j)) [0..<Suc n])))"
  proof (rule Suc.IH)
    fix k assume "k \<le> n"
    then have "Suc k \<le> Suc n" by simp
    from Suc.prems(1) [OF this]
    show "\<exists>r. pinList net pageLimit (off + pageLimit + pageLimit * k) (statusParam status) = Inr r \<and>
              pgs (Suc k) = (case r of None \<Rightarrow> [] | Some rows \<Rightarrow> rows)"
      by (simp add: add.assoc)
  next
    fix k assume "k < n"
    then have "Suc k < Suc n" by simp
    from Suc.prems(2) [OF this]
    show "pgs (Suc k) \<noteq> [] \<and> \<not> length (pgs (Suc k)) < pageLimit \<and>
          \<not> js_ge (Fin (real (length (acc @ pgs 0)
                + length (concat (map (\<lambda>j. pgs (Suc j)) [0..<Suc k]))))) limit"
      unfolding shift by (simp add: add.assoc)
  next
    from Suc.prems(3)
    show "pgs (Suc n) = [] \<or> length (pgs (Suc n)) < pageLimit \<or>
          js_ge (Fin (real (length (acc @ pgs 0)
                + length (concat (map (\<lambda>j. pgs (Suc j)) [0..<Suc n]))))) limit"
      unfolding shift by (simp add: add.assoc)
  qed
  show ?case
    unfolding step ih shift shiftq by simp
qed

lemma length_full_pages:
  assumes "\<And>k. k < m \<Longrightarrow> length (pgs k) = p"
  shows "length (concat (map pgs [0..<m])) = m * p"
  using assms by (induction m) simp_all

lemma below_limit:
  "js_le (Fin t) limit \<Longrightarrow> x < t \<Longrightarrow> \<not> js_ge (Fin x) limit"
  by (cases limit) (simp_all add: js_ge_def)

lemma pinList_loop_N_pages:
  assumes N: "0 < N"
      and ok: "\<And>k. k < N \<Longrightarrow>
                 pinList net pageLimit (pageLimit * k) (statusParam status) = Inr (Some (pgs k))"
      and full: "\<And>k. k < N - 1 \<Longrightarrow> length (pgs k) = pageLimit"
      and short: "length (pgs (N - 1)) < pageLimit"
      and lim: "js_le (Fin (real ((N - 1) * pageLimit + length (pgs (N - 1))))) limit"
  shows "\<exists>tr. pinList_loop net limit status [] 0 [] = Some (tr, Inr (concat (map pgs [0..<N])))"
proof -
  let ?L = "length (pgs (N - 1))"
  let ?total = "(N - 1) * pageLimit + ?L"
  have pl: "0 < pageLimit" by (simp add: pageLimit_def)
  have len: "length (concat (map pgs [0..<m])) = m * pageLimit" if "m \<le> N - 1" for m
    by (rule length_full_pages) (use that full in simp)
  have ok0: "\<exists>r. pinList net pageLimit (0 + pageLimit * k) (statusParam status) = Inr r \<and>
                 pgs k = (case r of None \<Rightarrow> [] | Some rows \<Rightarrow> rows)"
    if "k < N" for k using ok [OF that] by simp
  have full_cont: "pgs k \<noteq> [] \<and> \<not> length (pgs k) < pageLimit" if "k < N - 1" for k
    using full [OF that] pl by auto
  have below: "\<not> js_ge (Fin (real (m * pageLimit))) limit" if "m < N - 1" for m
  proof (rule below_limit [OF lim])
    have "m * pageLimit < (N - 1) * pageLimit" using that pl by simp
    then have "m * pageLimit < ?total" by (rule trans_less_add1)
    then show "real (m * pageLimit) < real ?total" by (simp only: of_nat_less_iff)
  qed
  have split_last: "concat (map pgs [0..<N]) = concat (map pgs [0..<N - 1]) @ pgs (N - 1)"
  proof -
    from N have "[0..<N] = [0..<N - 1] @ [N - 1]"
      by (metis Suc_diff_1 upt_Suc_append zero_le)
    then show ?thesis by simp
  qed
  show ?thesis
  proof (cases "?L = 0 \<and> 2 \<le> N \<and> js_ge (Fin (real ((N - 1) * pageLimit))) limit")
    case True
    then have N_ge: "2 \<le> N" and "?L = 0"
      and ge: "js_ge (Fin (real ((N - 1) * pageLimit))) limit" by blast+
    from \<open>?L = 0\<close> have L0: "pgs (N - 1) = []" by simp
    from N_ge have N2: "Suc (N - 2) = N - 1" by arith
    have "pinList_loop net limit status [] 0 [] =
           Some ([] @ map (\<lambda>k. PinList pageLimit (0 + pageLimit * k) (statusParam status)) [0..<Suc (N - 2)],
                 Inr ([] @ concat (map pgs [0..<Suc (N - 2)])))"
    proof (rule pinList_loop_run)
      fix k assume "k \<le> N - 2"
      with N_ge have "k < N" by arith
      then show "\<exists>r. pinList net pageLimit (0 + pageLimit * k) (statusParam status) = Inr r \<and>
                 pgs k = (case r of None \<Rightarrow> [] | Some rows \<Rightarrow> rows)"
        by (rule ok0)
    next
      fix k assume k: "k < N - 2"
      then have k1: "k < N - 1" and k2: "Suc k < N - 1" by arith+
      have "length (concat (map pgs [0..<Suc k])) = Suc k * pageLimit"
        by (rule len) (use k2 in simp)
      with below [OF k2] full_cont [OF k1]
      show "pgs k \<noteq> [] \<and> \<not> length (pgs k) < pageLimit \<and>
            \<not> js_ge (Fin (real (length ([] :: pin_row list) + length (concat (map pgs [0..<Suc k]))))) limit"
        by simp
    next
      have "length (concat (map pgs [0..<Suc (N - 2)])) = (N - 1) * pageLimit"
        unfolding N2 by (rule len) simp
      with ge
      show "pgs (N - 2) = [] \<or> length (pgs (N - 2)) < pageLimit \<or>
            js_ge (Fin (real (length ([] :: pin_row list) + length (concat (map pgs [0..<Suc (N - 2)]))))) limit"
        by simp
    qed
    moreover have "concat (map pgs [0..<Suc (N - 2)]) = concat (map pgs [0..<N])"
      unfolding N2 split_last using L0 by simp
    ultimately show ?thesis by simp
  next
    case False
    from N have N1: "Suc (N - 1) = N" by simp
    have "pinList_loop net limit status [] 0 [] =
           Some ([] @ map (\<lambda>k. PinList pageLimit (0 + pageLimit * k) (statusParam status)) [0..<Suc (N - 1)],
                 Inr ([] @ concat (map pgs [0..<Suc (N - 1)])))"
    proof (rule pinList_loop_run)
      fix k assume "k \<le> N - 1"
      with N have "k < N" by arith
      then show "\<exists>r. pinList net pageLimit (0 + pageLimit * k) (statusParam status) = Inr r \<and>
                 pgs k = (case r of None \<Rightarrow> [] | Some rows \<Rightarrow> rows)"
        by (rule ok0)
    next
      fix k assume k: "k < N - 1"
      have l: "length (concat (map pgs [0..<Suc k])) = Suc k * pageLimit"
        by (rule len) (use k in simp)
      have "\<not> js_ge (Fin (real (Suc k * pageLimit))) limit"
      proof (cases "Suc k < N - 1")
        case True
        then show ?thesis by (rule below)
      next
        case False
        with k have e: "Suc k = N - 1" by arith
        show ?thesis
        proof (cases "?L = 0")
          case True
          from e have "2 \<le> N" by arith
          with True \<open>\<not> (?L = 0 \<and> 2 \<le> N \<and> js_ge (Fin (real ((N - 1) * pageLimit))) limit)\<close>
          have "\<not> js_ge (Fin (real ((N - 1) * pageLimit))) limit" by blast
          then show ?thesis unfolding e .
        next
          case False
          then have "Suc k * pageLimit < ?total" unfolding e by simp
          then have "real (Suc k * pageLimit) < real ?total" by (simp only: of_nat_less_iff)
          with lim show ?thesis by (rule below_limit)
        qed
      qed
      with l full_cont [OF k]
      show "pgs k \<noteq> [] \<and> \<not> length (pgs k) < pageLimit \<and>
            \<not> js_ge (Fin (real (length ([] :: pin_row list) + length (concat (map pgs [0..<Suc k]))))) limit"
        by simp
    next
      from short
      show "pgs (N - 1) = [] \<or> length (pgs (N - 1)) < pageLimit \<or>
            js_ge (Fin (real (length ([] :: pin_row list) + length (concat (map pgs [0..<Suc (N - 1)]))))) limit"
        by simp
    qed
    then show ?thesis unfolding N1 by simp
  qed
qed

lemma length_N_pages:
  assumes "0 < N" and "\<And>k. k < N - 1 \<Longrightarrow> length (pgs k) = pageLimit"
  shows "length (concat (map pgs [0..<N])) = (N - 1) * pageLimit + length (pgs (N - 1))"
proof -
  from assms(1) have "[0..<N] = [0..<N - 1] @ [N - 1]"
    by (metis Suc_diff_1 upt_Suc_append zero_le)
  then have "concat (map pgs [0..<N]) = concat (map pgs [0..<N - 1]) @ pgs (N - 1)" by simp
  moreover have "length (concat (map pgs [0..<N - 1])) = (N - 1) * pageLimit"
    by (rule length_full_pages) (rule assms(2))
  ultimately show ?thesis by simp
qed

lemma pinList_loop_bounded:
  fixes L :: int
  assumes cap: "\<And>off rows. pinList net pageLimit off (statusParam status) = Inr (Some rows)
                   \<Longrightarrow> length rows \<le> pageLimit"
      and L: "1 \<le> L"
      and inv: "length acc = off" "off = 0 \<or> int off < L"
      and trinv: "\<forall>q\<in>set tr. \<exists>off'. q = PinList pageLimit off' (statusParam status) \<and>
                                     (off' = 0 \<or> int off' < L)"
  shows "\<exists>tr' res. pinList_loop net (Fin (of_int L)) status acc off tr = Some (tr', res) \<and>
           (\<forall>q\<in>set tr'. \<exists>off'. q = PinList pageLimit off' (statusParam status) \<and>
                                 (off' = 0 \<or> int off' < L)) \<and>
           (\<forall>files. res = Inr files \<longrightarrow> int (length files) \<le> L + 99)"
  using inv trinv
proof (induction "nat L - off" arbitrary: acc off tr rule: less_induct)
  case less
  let ?q = "PinList pageLimit off (statusParam status)"
  let ?P = "\<lambda>t. \<forall>q\<in>set t. \<exists>off'. q = PinList pageLimit off' (statusParam status) \<and>
                                   (off' = 0 \<or> int off' < L)"
  have tq: "?P (tr @ [?q])"
    using less.prems(2,3) by auto
  have acc_le: "int (length acc) \<le> L + 99"
    using less.prems(1,2) L by auto
  show ?case
  proof (cases "pinList net pageLimit off (statusParam status)")
    case (Inl e)
    then have "pinList_loop net (Fin (of_int L)) status acc off tr = Some (tr @ [?q], Inl e)"
      by (subst pinList_loop_unfold) simp
    with tq show ?thesis by simp
  next
    case (Inr r)
    show ?thesis
    proof (cases r)
      case None
      with Inr have "pinList_loop net (Fin (of_int L)) status acc off tr = Some (tr @ [?q], Inr acc)"
        by (subst pinList_loop_unfold) simp
      with tq acc_le show ?thesis by simp
    next
      case (Some rows)
      with Inr have p: "pinList net pageLimit off (statusParam status) = Inr (Some rows)" by simp
      have rl: "length rows \<le> 100" using cap [OF p] by (simp add: pageLimit_def)
      have app_le: "int (length (acc @ rows)) \<le> L + 99"
        using less.prems(1,2) L rl by auto
      show ?thesis
      proof (cases "rows = []")
        case True
        with p have "pinList_loop net (Fin (of_int L)) status acc off tr = Some (tr @ [?q], Inr acc)"
          by (subst pinList_loop_unfold) simp
        with tq acc_le show ?thesis by simp
      next
        case False
        note ne = this
        show ?thesis
        proof (cases "js_ge (Fin (real (length acc + length rows))) (Fin (of_int L))
                      \<or> length rows < pageLimit")
          case True
          with p ne have "pinList_loop net (Fin (of_int L)) status acc off tr
                = Some (tr @ [?q], Inr (acc @ rows))"
            by (subst pinList_loop_unfold) simp
          with tq app_le show ?thesis by simp
        next
          case False
          then have nge: "\<not> js_ge (Fin (real (length acc + length rows))) (Fin (of_int L))"
            and full: "\<not> length rows < pageLimit" by blast+
          from p ne False have step: "pinList_loop net (Fin (of_int L)) status acc off tr
                = pinList_loop net (Fin (of_int L)) status (acc @ rows) (off + pageLimit) (tr @ [?q])"
            by (subst pinList_loop_unfold) simp
          from full rl have len: "length rows = 100" by (simp add: pageLimit_def)
          from nge have "real (length acc + length rows) < of_int L"
            by (simp add: js_ge_def)
          then have "real_of_int (int (length acc + length rows)) < real_of_int L" by simp
          then have lt: "int (length acc + length rows) < L" by (simp only: of_int_less_iff)
          have off': "off + pageLimit = length (acc @ rows)"
            using less.prems(1) len by (simp add: pageLimit_def)
          have "\<exists>tr' res. pinList_loop net (Fin (of_int L)) status (acc @ rows) (off + pageLimit)
                    (tr @ [?q]) = Some (tr', res) \<and> ?P tr' \<and>
                 (\<forall>files. res = Inr files \<longrightarrow> int (length files) \<le> L + 99)"
          proof (rule less.hyps)
            show "nat L - (off + pageLimit) < nat L - off"
              using lt off' by (simp add: pageLimit_def)
            show "length (acc @ rows) = off + pageLimit" using off' by simp
            show "off + pageLimit = 0 \<or> int (off + pageLimit) < L"
              using lt off' by simp
            show "?P (tr @ [?q])" by (rule tq)
          qed
          then show ?thesis unfolding step .
        qed
      qed
    qed
  qed
qed

lemma stop_first:
  assumes "pinList net pageLimit off (statusParam status) = Inr r"
      and "p0 = (case r of None \<Rightarrow> [] | Some rows \<Rightarrow> rows)"
      and "p0 = [] \<or> length p0 < pageLimit \<or> js_ge (Fin (real (length acc + length p0))) limit"
  shows "\<exists>n pgs.
        (\<forall>k\<le>n. \<exists>r. pinList net pageLimit (off + pageLimit * k) (statusParam status) = Inr r \<and>
                    pgs k = (case r of None \<Rightarrow> [] | Some rows \<Rightarrow> rows)) \<and>
        (\<forall>k<n. pgs k \<noteq> [] \<and> \<not> length (pgs k) < pageLimit \<and>
           \<not> js_ge (Fin (real (length acc + length (concat (map pgs [0..<Suc k]))))) limit) \<and>
        (pgs n = [] \<or> length (pgs n) < pageLimit \<or>
           js_ge (Fin (real (length acc + length (concat (map pgs [0..<Suc n]))))) limit)"
proof (intro exI [of _ 0] exI [of _ "\<lambda>k. p0"] conjI)
  show "\<forall>k\<le>0. \<exists>r. pinList net pageLimit (off + pageLimit * k) (statusParam status) = Inr r \<and>
                    p0 = (case r of None \<Rightarrow> [] | Some rows \<Rightarrow> rows)"
    using assms(1,2) by simp
  show "\<forall>k<0. p0 \<noteq> [] \<and> \<not> length p0 < pageLimit \<and>
           \<not> js_ge (Fin (real (length acc + length (concat (map (\<lambda>k. p0) [0..<Suc k]))))) limit"
    by simp
  show "p0 = [] \<or> length p0 < pageLimit \<or>
           js_ge (Fin (real (length acc + length (concat (map (\<lambda>k. p0) [0..<Suc 0]))))) limit"
    using assms(3) by simp
qed


lemma stop_later:
  assumes p: "pinList net pageLimit off (statusParam status) = Inr (Some rows)"
      and cont: "rows \<noteq> [] \<and> \<not> length rows < pageLimit \<and>
                 \<not> js_ge (Fin (real (length acc + length rows))) limit"
      and g: "(\<forall>k\<le>n. \<exists>r. pinList net pageLimit (off + pageLimit + pageLimit * k) (statusParam status) = Inr r \<and>
                    pgs k = (case r of None \<Rightarrow> [] | Some rows \<Rightarrow> rows)) \<and>
        (\<forall>k<n. pgs k \<noteq> [] \<and> \<not> length (pgs k) < pageLimit \<and>
           \<not> js_ge (Fin (real (length (acc @ rows) + length (concat (map pgs [0..<Suc k]))))) limit) \<and>
        (pgs n = [] \<or> length (pgs n) < pageLimit \<or>
           js_ge (Fin (real (length (acc @ rows) + length (concat (map pgs [0..<Suc n]))))) limit)"
  shows "\<exists>n pgs.
        (\<forall>k\<le>n. \<exists>r. pinList net pageLimit (off + pageLimit * k) (statusParam status) = Inr r \<and>
                    pgs k = (case r of None \<Rightarrow> [] | Some rows \<Rightarrow> rows)) \<and>
        (\<forall>k<n. pgs k \<noteq> [] \<and> \<not> length (pgs k) < pageLimit \<and>
           \<not> js_ge (Fin (real (length acc + length (concat (map pgs [0..<Suc k]))))) limit) \<and>
        (pgs n = [] \<or> length (pgs n) < pageLimit \<or>
           js_ge (Fin (real (length acc + length (concat (map pgs [0..<Suc n]))))) limit)"
proof -
  let ?pgs = "\<lambda>k. case k of 0 \<Rightarrow> rows | Suc j \<Rightarrow> pgs j"
  have g1: "\<And>k. k \<le> n \<Longrightarrow> \<exists>r. pinList net pageLimit (off + pageLimit + pageLimit * k) (statusParam status) = Inr r \<and>
                    pgs k = (case r of None \<Rightarrow> [] | Some rows \<Rightarrow> rows)"
    and g2: "\<And>k. k < n \<Longrightarrow> pgs k \<noteq> [] \<and> \<not> length (pgs k) < pageLimit \<and>
           \<not> js_ge (Fin (real (length (acc @ rows) + length (concat (map pgs [0..<Suc k]))))) limit"
    and g3: "pgs n = [] \<or> length (pgs n) < pageLimit \<or>
           js_ge (Fin (real (length (acc @ rows) + length (concat (map pgs [0..<Suc n]))))) limit"
    using g by blast+
  have shift: "length (concat (map ?pgs [0..<Suc (Suc k)]))
        = length rows + length (concat (map pgs [0..<Suc k]))" for k
  proof -
    have "[0..<Suc (Suc k)] = 0 # map Suc [0..<Suc k]"
      by (metis map_Suc_upt upt_conv_Cons zero_less_Suc)
    then have "concat (map ?pgs [0..<Suc (Suc k)]) = rows @ concat (map pgs [0..<Suc k])"
      by (simp add: comp_def del: upt_Suc)
    then have "length (concat (map ?pgs [0..<Suc (Suc k)]))
        = length (rows @ concat (map pgs [0..<Suc k]))" by (rule arg_cong)
    then show ?thesis by (simp only: length_append)
  qed
  have a: "\<exists>r. pinList net pageLimit (off + pageLimit * k) (statusParam status) = Inr r \<and>
                    ?pgs k = (case r of None \<Rightarrow> [] | Some rows \<Rightarrow> rows)" if "k \<le> Suc n" for k
  proof (cases k)
    case 0
    with p show ?thesis by simp
  next
    case (Suc j)
    with that have j: "j \<le> n" by simp
    have "off + pageLimit + pageLimit * j = off + pageLimit * Suc j" by simp
    with g1 [OF j] show ?thesis unfolding Suc by simp
  qed
  have b: "?pgs k \<noteq> [] \<and> \<not> length (?pgs k) < pageLimit \<and>
             \<not> js_ge (Fin (real (length acc + length (concat (map ?pgs [0..<Suc k]))))) limit"
    if "k < Suc n" for k
  proof (cases k)
    case 0
    with cont show ?thesis by simp
  next
    case (Suc j)
    with that have "j < n" by simp
    from g2 [OF this] show ?thesis unfolding Suc shift by (simp add: add.assoc)
  qed
  have c: "?pgs (Suc n) = [] \<or> length (?pgs (Suc n)) < pageLimit \<or>
             js_ge (Fin (real (length acc + length (concat (map ?pgs [0..<Suc (Suc n)]))))) limit"
    using g3 unfolding shift by (simp add: add.assoc)
  have A: "\<forall>k\<le>Suc n. \<exists>r. pinList net pageLimit (off + pageLimit * k) (statusParam status) = Inr r \<and>
                    ?pgs k = (case r of None \<Rightarrow> [] | Some rows \<Rightarrow> rows)"
    using a by (intro allI impI)
  have B: "\<forall>k<Suc n. ?pgs k \<noteq> [] \<and> \<not> length (?pgs k) < pageLimit \<and>
             \<not> js_ge (Fin (real (length acc + length (concat (map ?pgs [0..<Suc k]))))) limit"
    using b by (intro allI impI)
  show ?thesis
    by (rule exI [of _ "Suc n"], rule exI [of _ ?pgs], intro conjI) (rule A, rule B, rule c)
qed


lemma pinList_loop_stops:
  assumes "pinList_loop net limit status acc off tr = Some y"
  shows "\<forall>tr' files. y = (tr', Inr files) \<longrightarrow>
     (\<exists>n pgs.
        (\<forall>k\<le>n. \<exists>r. pinList net pageLimit (off + pageLimit * k) (statusParam status) = Inr r \<and>
                    pgs k = (case r of None \<Rightarrow> [] | Some rows \<Rightarrow> rows)) \<and>
        (\<forall>k<n. pgs k \<noteq> [] \<and> \<not> length (pgs k) < pageLimit \<and>
           \<not> js_ge (Fin (real (length acc + length (concat (map pgs [0..<Suc k]))))) limit) \<and>
        (pgs n = [] \<or> length (pgs n) < pageLimit \<or>
           js_ge (Fin (real (length acc + length (concat (map pgs [0..<Suc n]))))) limit))"
proof (rule pinList_loop.raw_induct
    [where P = "\<lambda>net limit status acc off tr y.
       \<forall>tr' files. y = (tr', Inr files) \<longrightarrow>
     (\<exists>n pgs.
        (\<forall>k\<le>n. \<exists>r. pinList net pageLimit (off + pageLimit * k) (statusParam status) = Inr r \<and>
                    pgs k = (case r of None \<Rightarrow> [] | Some rows \<Rightarrow> rows)) \<and>
        (\<forall>k<n. pgs k \<noteq> [] \<and> \<not> length (pgs k) < pageLimit \<and>
           \<not> js_ge (Fin (real (length acc + length (concat (map pgs [0..<Suc k]))))) limit) \<and>
        (pgs n = [] \<or> length (pgs n) < pageLimit \<or>
           js_ge (Fin (real (length acc + length (concat (map pgs [0..<Suc n]))))) limit))",
     OF _ assms], goal_cases)
  case (1 loop net limit status allFiles pageOffset trace y)
  show ?case
  proof (cases "pinList net pageLimit pageOffset (statusParam status)")
    case (Inl e)
    with 1(2) have "y = (trace @ [PinList pageLimit pageOffset (statusParam status)], Inl e)"
      by simp
    then show ?thesis by simp
  next
    case (Inr r)
    show ?thesis
    proof (cases "(case r of None \<Rightarrow> [] | Some rows \<Rightarrow> rows) = [] \<or>
                  length (case r of None \<Rightarrow> [] | Some rows \<Rightarrow> rows) < pageLimit \<or>
                  js_ge (Fin (real (length allFiles
                    + length (case r of None \<Rightarrow> [] | Some rows \<Rightarrow> rows)))) limit")
      case True
      have "\<exists>n pgs.
        (\<forall>k\<le>n. \<exists>r. pinList net pageLimit (pageOffset + pageLimit * k) (statusParam status) = Inr r \<and>
                    pgs k = (case r of None \<Rightarrow> [] | Some rows \<Rightarrow> rows)) \<and>
        (\<forall>k<n. pgs k \<noteq> [] \<and> \<not> length (pgs k) < pageLimit \<and>
           \<not> js_ge (Fin (real (length allFiles + length (concat (map pgs [0..<Suc k]))))) limit) \<and>
        (pgs n = [] \<or> length (pgs n) < pageLimit \<or>
           js_ge (Fin (real (length allFiles + length (concat (map pgs [0..<Suc n]))))) limit)"
        using Inr refl True by (rule stop_first)
      then show ?thesis by (intro allI impI)
    next
      case False
      then obtain rows where r: "r = Some rows" by (cases r) auto
      with False have cont: "rows \<noteq> [] \<and> \<not> length rows < pageLimit \<and>
                 \<not> js_ge (Fin (real (length allFiles + length rows))) limit" by simp
      from Inr r have p: "pinList net pageLimit pageOffset (statusParam status) = Inr (Some rows)"
        by simp
      from cont have c1: "length rows \<noteq> 0"
        and c2: "\<not> (js_ge (Fin (real (length (allFiles @ rows)))) limit \<or> length rows < pageLimit)"
        by simp_all
      have run: "loop net limit status (allFiles @ rows) (pageOffset + pageLimit)
                 (trace @ [PinList pageLimit pageOffset (statusParam status)]) = Some y"
        using 1(2) unfolding p by (simp only: sum.case option.case c1 c2 if_False)
      show ?thesis
      proof (intro allI impI)
        fix tr' files assume "y = (tr', Inr files)"
        with 1(1) [OF run] obtain n pgs where
          "(\<forall>k\<le>n. \<exists>r. pinList net pageLimit (pageOffset + pageLimit + pageLimit * k) (statusParam status) = Inr r \<and>
                    pgs k = (case r of None \<Rightarrow> [] | Some rows \<Rightarrow> rows)) \<and>
           (\<forall>k<n. pgs k \<noteq> [] \<and> \<not> length (pgs k) < pageLimit \<and>
              \<not> js_ge (Fin (real (length (allFiles @ rows) + length (concat (map pgs [0..<Suc k]))))) limit) \<and>
           (pgs n = [] \<or> length (pgs n) < pageLimit \<or>
              js_ge (Fin (real (length (allFiles @ rows) + length (concat (map pgs [0..<Suc n]))))) limit)"
          by blast
        with p cont show "\<exists>n pgs.
          (\<forall>k\<le>n. \<exists>r. pinList net pageLimit (pageOffset + pageLimit * k) (statusParam status) = Inr r \<and>
                    pgs k = (case r of None \<Rightarrow> [] | Some rows \<Rightarrow> rows)) \<and>
          (\<forall>k<n. pgs k \<noteq> [] \<and> \<not> length (pgs k) < pageLimit \<and>
             \<not> js_ge (Fin (real (length allFiles + length (concat (map pgs [0..<Suc k]))))) limit) \<and>
          (pgs n = [] \<or> length (pgs n) < pageLimit \<or>
             js_ge (Fin (real (length allFiles + length (concat (map pgs [0..<Suc n]))))) limit)"
          by (rule stop_later)
      qed
    qed
  qed
qed

text \<open>
  Claim C1. Write \<open>pgs k\<close> for the rows of the page at offset \<open>100 * k\<close> (no rows when
  \<open>rows\<close> is missing). If none of the three conditions holds for the pages before
  page \<open>n\<close> (the page is empty; the page is shorter than 100; the rows accumulated with
  it reach the limit) and one of them holds for page \<open>n\<close>, then \<open>listPinnedFiles\<close>
  returns after exactly the requests at offsets \<open>0, 100, \<dots>, 100 * n\<close>, with all rows of
  these pages in order. Conversely, whenever it returns a listing, there is such a page
  \<open>n\<close>, and the requests and rows are those. In particular, over \<open>N\<close> pages of which the
  first \<open>N - 1\<close> have 100 rows and the last has fewer, with a limit not below the total,
  it returns \<open>(N - 1) * 100 + length (pgs (N - 1))\<close> rows.
\<close>

theorem listPinnedFiles_pagination:
  "((\<forall>k\<le>n. \<exists>r. pinList net pageLimit (pageLimit * k) (statusParam status) = Inr r \<and>
                 pgs k = (case r of None \<Rightarrow> [] | Some rows \<Rightarrow> rows)) \<and>
    (\<forall>k<n. pgs k \<noteq> [] \<and> \<not> length (pgs k) < pageLimit \<and>
            \<not> js_ge (Fin (real (length (concat (map pgs [0..<Suc k]))))) limit) \<and>
    (pgs n = [] \<or> length (pgs n) < pageLimit \<or>
       js_ge (Fin (real (length (concat (map pgs [0..<Suc n]))))) limit)
    \<longrightarrow> listPinnedFiles net limit status =
          Some (map (\<lambda>k. PinList pageLimit (pageLimit * k) (statusParam status)) [0..<Suc n],
                Listed (length (concat (map pgs [0..<Suc n])))
                       (map pinned_file (concat (map pgs [0..<Suc n])))))
   \<and> (listPinnedFiles net limit status = Some (tr, Listed c rows)
      \<longrightarrow> (\<exists>m ps.
            (\<forall>k\<le>m. \<exists>r. pinList net pageLimit (pageLimit * k) (statusParam status) = Inr r \<and>
                 ps k = (case r of None \<Rightarrow> [] | Some rows \<Rightarrow> rows)) \<and>
            (\<forall>k<m. ps k \<noteq> [] \<and> \<not> length (ps k) < pageLimit \<and>
                 \<not> js_ge (Fin (real (length (concat (map ps [0..<Suc k]))))) limit) \<and>
            (ps m = [] \<or> length (ps m) < pageLimit \<or>
                 js_ge (Fin (real (length (concat (map ps [0..<Suc m]))))) limit) \<and>
            tr = map (\<lambda>k. PinList pageLimit (pageLimit * k) (statusParam status)) [0..<Suc m] \<and>
            rows = map pinned_file (concat (map ps [0..<Suc m])) \<and>
            c = length rows))
   \<and> (0 < N \<and>
      (\<forall>k<N. pinList net pageLimit (pageLimit * k) (statusParam status) = Inr (Some (pgs' k))) \<and>
      (\<forall>k<N - 1. length (pgs' k) = pageLimit) \<and>
      length (pgs' (N - 1)) < pageLimit \<and>
      js_le (Fin (real ((N - 1) * pageLimit + length (pgs' (N - 1))))) limit
      \<longrightarrow> (\<exists>tr rows. listPinnedFiles net limit status
                        = Some (tr, Listed ((N - 1) * pageLimit + length (pgs' (N - 1))) rows)
                    \<and> rows = map pinned_file (concat (map pgs' [0..<N]))
                    \<and> length rows = (N - 1) * pageLimit + length (pgs' (N - 1))))
   \<and> pageLimit = 100"
proof -
  have run: "pinList_loop net limit status [] 0 [] =
          Some (map (\<lambda>k. PinList pageLimit (pageLimit * k) (statusParam status)) [0..<Suc n],
                Inr (concat (map pgs [0..<Suc n])))"
    if a: "(\<forall>k\<le>n. \<exists>r. pinList net pageLimit (pageLimit * k) (statusParam status) = Inr r \<and>
                 pgs k = (case r of None \<Rightarrow> [] | Some rows \<Rightarrow> rows)) \<and>
        (\<forall>k<n. pgs k \<noteq> [] \<and> \<not> length (pgs k) < pageLimit \<and>
            \<not> js_ge (Fin (real (length (concat (map pgs [0..<Suc k]))))) limit) \<and>
        (pgs n = [] \<or> length (pgs n) < pageLimit \<or>
           js_ge (Fin (real (length (concat (map pgs [0..<Suc n]))))) limit)"
    for n pgs
  proof -
    have "pinList_loop net limit status [] 0 [] =
          Some ([] @ map (\<lambda>k. PinList pageLimit (0 + pageLimit * k) (statusParam status)) [0..<Suc n],
                Inr ([] @ concat (map pgs [0..<Suc n])))"
    proof (rule pinList_loop_run)
      fix k assume "k \<le> n"
      with a show "\<exists>r. pinList net pageLimit (0 + pageLimit * k) (statusParam status) = Inr r \<and>
                 pgs k = (case r of None \<Rightarrow> [] | Some rows \<Rightarrow> rows)" by simp
    next
      fix k assume "k < n"
      with a show "pgs k \<noteq> [] \<and> \<not> length (pgs k) < pageLimit \<and>
        \<not> js_ge (Fin (real (length ([] :: pin_row list) + length (concat (map pgs [0..<Suc k]))))) limit"
        by simp
    next
      from a show "pgs n = [] \<or> length (pgs n) < pageLimit \<or>
        js_ge (Fin (real (length ([] :: pin_row list) + length (concat (map pgs [0..<Suc n]))))) limit"
        by simp
    qed
    then show ?thesis by simp
  qed
  have part1: "listPinnedFiles net limit status =
          Some (map (\<lambda>k. PinList pageLimit (pageLimit * k) (statusParam status)) [0..<Suc n],
                Listed (length (concat (map pgs [0..<Suc n])))
                       (map pinned_file (concat (map pgs [0..<Suc n]))))"
    if "(\<forall>k\<le>n. \<exists>r. pinList net pageLimit (pageLimit * k) (statusParam status) = Inr r \<and>
                 pgs k = (case r of None \<Rightarrow> [] | Some rows \<Rightarrow> rows)) \<and>
        (\<forall>k<n. pgs k \<noteq> [] \<and> \<not> length (pgs k) < pageLimit \<and>
            \<not> js_ge (Fin (real (length (concat (map pgs [0..<Suc k]))))) limit) \<and>
        (pgs n = [] \<or> length (pgs n) < pageLimit \<or>
           js_ge (Fin (real (length (concat (map pgs [0..<Suc n]))))) limit)"
    using run [OF that] by (simp add: listPinnedFiles_def)
  have part2: "\<exists>m ps.
            (\<forall>k\<le>m. \<exists>r. pinList net pageLimit (pageLimit * k) (statusParam status) = Inr r \<and>
                 ps k = (case r of None \<Rightarrow> [] | Some rows \<Rightarrow> rows)) \<and>
            (\<forall>k<m. ps k \<noteq> [] \<and> \<not> length (ps k) < pageLimit \<and>
                 \<not> js_ge (Fin (real (length (concat (map ps [0..<Suc k]))))) limit) \<and>
            (ps m = [] \<or> length (ps m) < pageLimit \<or>
                 js_ge (Fin (real (length (concat (map ps [0..<Suc m]))))) limit) \<and>
            tr = map (\<lambda>k. PinList pageLimit (pageLimit * k) (statusParam status)) [0..<Suc m] \<and>
            rows = map pinned_file (concat (map ps [0..<Suc m])) \<and>
            c = length rows"
    if l: "listPinnedFiles net limit status = Some (tr, Listed c rows)"
  proof -
    from l obtain files where f: "pinList_loop net limit status [] 0 [] = Some (tr, Inr files)"
      and rows: "rows = map pinned_file files" and c: "c = length files"
      by (auto simp: listPinnedFiles_def split: option.splits sum.splits)
    from pinList_loop_stops [OF f] obtain m ps where
      h: "(\<forall>k\<le>m. \<exists>r. pinList net pageLimit (0 + pageLimit * k) (statusParam status) = Inr r \<and>
                    ps k = (case r of None \<Rightarrow> [] | Some rows \<Rightarrow> rows)) \<and>
        (\<forall>k<m. ps k \<noteq> [] \<and> \<not> length (ps k) < pageLimit \<and>
           \<not> js_ge (Fin (real (length ([] :: pin_row list) + length (concat (map ps [0..<Suc k]))))) limit) \<and>
        (ps m = [] \<or> length (ps m) < pageLimit \<or>
           js_ge (Fin (real (length ([] :: pin_row list) + length (concat (map ps [0..<Suc m]))))) limit)"
      by blast
    then have h': "(\<forall>k\<le>m. \<exists>r. pinList net pageLimit (pageLimit * k) (statusParam status) = Inr r \<and>
                 ps k = (case r of None \<Rightarrow> [] | Some rows \<Rightarrow> rows)) \<and>
            (\<forall>k<m. ps k \<noteq> [] \<and> \<not> length (ps k) < pageLimit \<and>
                 \<not> js_ge (Fin (real (length (concat (map ps [0..<Suc k]))))) limit) \<and>
            (ps m = [] \<or> length (ps m) < pageLimit \<or>
                 js_ge (Fin (real (length (concat (map ps [0..<Suc m]))))) limit)"
      by simp
    from run [OF h'] f have "tr = map (\<lambda>k. PinList pageLimit (pageLimit * k) (statusParam status)) [0..<Suc m]"
      and "files = concat (map ps [0..<Suc m])" by simp_all
    with rows c have "tr = map (\<lambda>k. PinList pageLimit (pageLimit * k) (statusParam status)) [0..<Suc m] \<and>
            rows = map pinned_file (concat (map ps [0..<Suc m])) \<and> c = length rows" by simp
    with h' show ?thesis by blast
  qed
  have part3: "\<exists>tr rows. listPinnedFiles net limit status
                        = Some (tr, Listed ((N - 1) * pageLimit + length (pgs' (N - 1))) rows)
                    \<and> rows = map pinned_file (concat (map pgs' [0..<N]))
                    \<and> length rows = (N - 1) * pageLimit + length (pgs' (N - 1))"
    if b: "0 < N \<and>
      (\<forall>k<N. pinList net pageLimit (pageLimit * k) (statusParam status) = Inr (Some (pgs' k))) \<and>
      (\<forall>k<N - 1. length (pgs' k) = pageLimit) \<and>
      length (pgs' (N - 1)) < pageLimit \<and>
      js_le (Fin (real ((N - 1) * pageLimit + length (pgs' (N - 1))))) limit"
  proof -
    from b have N: "0 < N" and full: "\<And>k. k < N - 1 \<Longrightarrow> length (pgs' k) = pageLimit" by blast+
    have "\<exists>tr. pinList_loop net limit status [] 0 [] = Some (tr, Inr (concat (map pgs' [0..<N])))"
      by (rule pinList_loop_N_pages) (use b in blast)+
    then obtain tr where "pinList_loop net limit status [] 0 [] = Some (tr, Inr (concat (map pgs' [0..<N])))"
      by blast
    then have "listPinnedFiles net limit status
      = Some (tr, Listed ((N - 1) * pageLimit + length (pgs' (N - 1)))
                         (map pinned_file (concat (map pgs' [0..<N]))))"
      by (simp add: listPinnedFiles_def length_N_pages [OF N full])
    moreover have "length (map pinned_file (concat (map pgs' [0..<N])))
      = (N - 1) * pageLimit + length (pgs' (N - 1))"
      by (simp add: length_N_pages [OF N full])
    ultimately show ?thesis by blast
  qed
  have "pageLimit = 100" by (simp add: pageLimit_def)
  with part1 part2 part3 show ?thesis by (intro conjI impI)
qed

theorem listPinnedFiles_pagination_witness:
  "listPinnedFiles three_pages (Fin 1000) ''all''
     = Some ([PinList 100 0 None, PinList 100 100 None, PinList 100 200 None],
             Listed 237 (map pinned_file (replicate 100 older_row @ replicate 100 older_row
                                            @ replicate 37 newer_row)))
   \<and> (\<exists>tr rows. listPinnedFiles three_pages (Fin 1000) ''all'' = Some (tr, Listed 237 rows)
                  \<and> length rows = 237)
   \<and> (\<exists>m ps.
      (\<forall>k\<le>m. \<exists>r. pinList three_pages pageLimit (pageLimit * k) (statusParam ''all'') = Inr r \<and>
                 ps k = (case r of None \<Rightarrow> [] | Some rows \<Rightarrow> rows)) \<and>
      (\<forall>k<m. ps k \<noteq> [] \<and> \<not> length (ps k) < pageLimit \<and>
             \<not> js_ge (Fin (real (length (concat (map ps [0..<Suc k]))))) (Fin 1000)) \<and>
      (ps m = [] \<or> length (ps m) < pageLimit \<or>
         js_ge (Fin (real (length (concat (map ps [0..<Suc m]))))) (Fin 1000)) \<and>
      [PinList 100 0 None, PinList 100 100 None, PinList 100 200 None] =
        map (\<lambda>k. PinList pageLimit (pageLimit * k) (statusParam ''all'')) [0..<Suc m] \<and>
      map pinned_file (replicate 100 older_row @ replicate 100 older_row @ replicate 37 newer_row) =
        map pinned_file (concat (map ps [0..<Suc m])) \<and>
      237 = length (map pinned_file
                (replicate 100 older_row @ replicate 100 older_row @ replicate 37 newer_row)))"
proof -
  have pg: "pinList three_pages pageLimit (pageLimit * k) (statusParam ''all'')
              = Inr (Some (three_pages_rows k))" for k
    by (simp add: three_pages_def offline_def pageLimit_def)
  have two: "k = 0 \<or> k = 1" if "k < 2" for k :: nat using that by arith
  have up: "[0..<3] = [0, 1, 2]" "[0..<Suc 2] = [0, 1, 2]" "[0..<Suc 1] = [0, 1]" "[0..<Suc 0] = [0]"
    by (simp_all add: upt_rec)
  have a1: "\<forall>k\<le>2. \<exists>r. pinList three_pages pageLimit (pageLimit * k) (statusParam ''all'') = Inr r \<and>
                 three_pages_rows k = (case r of None \<Rightarrow> [] | Some rows \<Rightarrow> rows)"
    by (simp add: pg)
  have a2: "\<forall>k<2. three_pages_rows k \<noteq> [] \<and> \<not> length (three_pages_rows k) < pageLimit \<and>
            \<not> js_ge (Fin (real (length (concat (map three_pages_rows [0..<Suc k]))))) (Fin 1000)"
  proof (intro allI impI)
    fix k :: nat assume "k < 2"
    then have "k = 0 \<or> k = 1" by (rule two)
    then show "three_pages_rows k \<noteq> [] \<and> \<not> length (three_pages_rows k) < pageLimit \<and>
            \<not> js_ge (Fin (real (length (concat (map three_pages_rows [0..<Suc k]))))) (Fin 1000)"
      by (auto simp: three_pages_rows_def pageLimit_def js_ge_def up)
  qed
  have a3: "length (three_pages_rows 2) < pageLimit"
    by (simp add: three_pages_rows_def pageLimit_def)
  have b0: "(0::nat) < 3" by simp
  have b1: "\<forall>k<3. pinList three_pages pageLimit (pageLimit * k) (statusParam ''all'')
              = Inr (Some (three_pages_rows k))"
    by (simp add: pg)
  have b2: "\<forall>k<3 - 1. length (three_pages_rows k) = pageLimit"
    by (simp add: three_pages_rows_def pageLimit_def)
  have b3: "length (three_pages_rows (3 - 1)) < pageLimit"
    by (simp add: three_pages_rows_def pageLimit_def)
  have b4: "js_le (Fin (real ((3 - 1) * pageLimit + length (three_pages_rows (3 - 1))))) (Fin 1000)"
    by (simp add: three_pages_rows_def pageLimit_def)
  have rows: "concat (map three_pages_rows [0..<Suc 2])
      = replicate 100 older_row @ replicate 100 older_row @ replicate 37 newer_row"
    by (simp add: up three_pages_rows_def)
  have rows3: "concat (map three_pages_rows [0..<3])
      = replicate 100 older_row @ replicate 100 older_row @ replicate 37 newer_row"
    by (simp add: up three_pages_rows_def)
  have reqs: "map (\<lambda>k. PinList pageLimit (pageLimit * k) (statusParam ''all'')) [0..<Suc 2]
      = [PinList 100 0 None, PinList 100 100 None, PinList 100 200 None]"
    by (simp add: up pageLimit_def statusParam_def)
  have cnt: "(3 - 1) * pageLimit + length (three_pages_rows (3 - 1)) = 237"
    by (simp add: three_pages_rows_def pageLimit_def)
  from listPinnedFiles_pagination [where n = 2 and net = three_pages and status = "''all''"
      and pgs = three_pages_rows and limit = "Fin 1000" and N = 3 and pgs' = three_pages_rows]
    a1 a2 a3 b0 b1 b2 b3 b4
  have "listPinnedFiles three_pages (Fin 1000) ''all'' =
          Some (map (\<lambda>k. PinList pageLimit (pageLimit * k) (statusParam ''all'')) [0..<Suc 2],
                Listed (length (concat (map three_pages_rows [0..<Suc 2])))
                       (map pinned_file (concat (map three_pages_rows [0..<Suc 2]))))"
    and "\<exists>tr rows. listPinnedFiles three_pages (Fin 1000) ''all''
                        = Some (tr, Listed ((3 - 1) * pageLimit + length (three_pages_rows (3 - 1))) rows)
                    \<and> rows = map pinned_file (concat (map three_pages_rows [0..<3]))
                    \<and> length rows = (3 - 1) * pageLimit + length (three_pages_rows (3 - 1))"
    by blast+
  then have res: "listPinnedFiles three_pages (Fin 1000) ''all''
     = Some ([PinList 100 0 None, PinList 100 100 None, PinList 100 200 None],
             Listed 237 (map pinned_file (replicate 100 older_row @ replicate 100 older_row
                                            @ replicate 37 newer_row)))"
    and ex: "\<exists>tr rows. listPinnedFiles three_pages (Fin 1000) ''all'' = Some (tr, Listed 237 rows)
                  \<and> length rows = 237"
    unfolding rows rows3 reqs cnt by auto
  note conv = listPinnedFiles_pagination [where net = three_pages and status = "''all''"
      and limit = "Fin 1000"
      and tr = "[PinList 100 0 None, PinList 100 100 None, PinList 100 200 None]"
      and c = 237
      and rows = "map pinned_file (replicate 100 older_row @ replicate 100 older_row
                                     @ replicate 37 newer_row)",
      THEN conjunct2, THEN conjunct1, THEN mp, OF res]
  show ?thesis
    by (intro conjI) (rule res, rule ex, rule conv)
qed

text \<open>
  Claim C10, as amended. For every integer limit of at least 1 and every provider whose
  pages hold at most 100 rows, \<open>listPinnedFiles\<close> returns; when it succeeds the count is
  the number of rows returned (nothing is cut off at the limit) and is at most
  \<open>limit + 99\<close>; and every request but the first was sent at an offset, which is the
  number of rows accumulated by then, below the limit.
\<close>

theorem listPinnedFiles_count_bound:
  fixes L :: int
  assumes "1 \<le> L"
      and "\<forall>off rows. pinList net pageLimit off (statusParam status) = Inr (Some rows)
             \<longrightarrow> length rows \<le> pageLimit"
  shows "\<exists>tr r. listPinnedFiles net (Fin (of_int L)) status = Some (tr, r) \<and>
           (\<forall>n rows. r = Listed n rows \<longrightarrow> n = length rows \<and> int n \<le> L + 99) \<and>
           (\<forall>q\<in>set tr. \<exists>off. q = PinList pageLimit off (statusParam status) \<and>
                                (off = 0 \<or> int off < L))"
proof -
  have "\<exists>tr' res. pinList_loop net (Fin (of_int L)) status [] 0 [] = Some (tr', res) \<and>
           (\<forall>q\<in>set tr'. \<exists>off'. q = PinList pageLimit off' (statusParam status) \<and>
                                 (off' = 0 \<or> int off' < L)) \<and>
           (\<forall>files. res = Inr files \<longrightarrow> int (length files) \<le> L + 99)"
    by (rule pinList_loop_bounded) (use assms in simp_all)
  then obtain tr res where run: "pinList_loop net (Fin (of_int L)) status [] 0 [] = Some (tr, res)"
    and tr: "\<forall>q\<in>set tr. \<exists>off'. q = PinList pageLimit off' (statusParam status) \<and>
                                 (off' = 0 \<or> int off' < L)"
    and bound: "\<forall>files. res = Inr files \<longrightarrow> int (length files) \<le> L + 99"
    by blast
  show ?thesis
  proof (cases res)
    case (Inl e)
    with run have "listPinnedFiles net (Fin (of_int L)) status = Some (tr, ListFailed (message e))"
      by (simp add: listPinnedFiles_def)
    with tr show ?thesis by simp
  next
    case (Inr files)
    with run have "listPinnedFiles net (Fin (of_int L)) status
        = Some (tr, Listed (length files) (map pinned_file files))"
      by (simp add: listPinnedFiles_def)
    with tr bound Inr show ?thesis by simp
  qed
qed

theorem listPinnedFiles_count_bound_witness:
  "(1::int) \<le> 5 \<and>
   listPinnedFiles seven_rows (Fin 5) ''all''
     = Some ([PinList 100 0 None], Listed 7 (replicate 7 (pinned_file older_row))) \<and>
   (\<exists>tr r. listPinnedFiles seven_rows (Fin (of_int 5)) ''all'' = Some (tr, r) \<and>
           (\<forall>n rows. r = Listed n rows \<longrightarrow> n = length rows \<and> int n \<le> 5 + 99) \<and>
           (\<forall>q\<in>set tr. \<exists>off. q = PinList pageLimit off (statusParam ''all'') \<and>
                                (off = 0 \<or> int off < 5)))"
proof -
  have cap: "\<forall>off rows. pinList seven_rows pageLimit off (statusParam ''all'') = Inr (Some rows)
             \<longrightarrow> length rows \<le> pageLimit"
    by (auto simp: seven_rows_def offline_def pageLimit_def)
  have "pinList_loop seven_rows (Fin 5) ''all'' [] 0 [] =
          Some ([PinList 100 0 None], Inr (replicate 7 older_row))"
    by (subst pinList_loop.simps)
       (simp add: seven_rows_def offline_def pageLimit_def statusParam_def js_ge_def)
  then have "listPinnedFiles seven_rows (Fin 5) ''all''
     = Some ([PinList 100 0 None], Listed 7 (replicate 7 (pinned_file older_row)))"
    by (simp add: listPinnedFiles_def)
  with listPinnedFiles_count_bound [of 5 seven_rows "''all''", OF _ cap] show ?thesis by simp
qed

text \<open>
  Claim C10 as stated covers every limit. The first page is requested and appended
  whatever the limit is, so with limit 0 and a full first page the count is 100, which
  is not below \<open>limit + 100\<close>.
\<close>

theorem listPinnedFiles_limit_zero_counterexample:
  "listPinnedFiles full_pages (Fin 0) ''all''
     = Some ([PinList 100 0 None], Listed 100 (replicate 100 (pinned_file older_row)))
   \<and> \<not> (100::int) \<le> 0 + 99"
proof -
  have "pinList_loop full_pages (Fin 0) ''all'' [] 0 [] =
          Some ([PinList 100 0 None], Inr (replicate 100 older_row))"
    by (subst pinList_loop.simps)
       (simp add: full_pages_def offline_def pageLimit_def statusParam_def js_ge_def)
  then show ?thesis by (simp add: listPinnedFiles_def)
qed

end
